theory Spec2Isabelle
  imports Main "HOL-Library.Word"
begin

section \<open>Data model\<close>

text \<open>
  \<^verbatim>\<open>type Piece int\<close> with the thirteen \<^verbatim>\<open>iota\<close> constants of \<^verbatim>\<open>main.go\<close>;
  \<open>Empty\<close> is the zero value.
\<close>

datatype Piece =
    Empty
  | WhitePawn | WhiteKnight | WhiteBishop | WhiteRook | WhiteQueen | WhiteKing
  | BlackPawn | BlackKnight | BlackBishop | BlackRook | BlackQueen | BlackKing

text \<open>\<^verbatim>\<open>var pieceChars = map[rune]Piece{...}\<close>, in the order of the source.\<close>

definition pieceChars :: "char \<rightharpoonup> Piece" where
  "pieceChars = map_of
     [(CHR ''P'', WhitePawn), (CHR ''N'', WhiteKnight), (CHR ''B'', WhiteBishop),
      (CHR ''R'', WhiteRook), (CHR ''Q'', WhiteQueen), (CHR ''K'', WhiteKing),
      (CHR ''p'', BlackPawn), (CHR ''n'', BlackKnight), (CHR ''b'', BlackBishop),
      (CHR ''r'', BlackRook), (CHR ''q'', BlackQueen), (CHR ''k'', BlackKing)]"

text \<open>Reading a Go map at a missing key gives the zero value of the element type.\<close>

definition pieceChars_at :: "char \<Rightarrow> Piece" where
  "pieceChars_at c = (case pieceChars c of None \<Rightarrow> Empty | Some p \<Rightarrow> p)"

text \<open>\<^verbatim>\<open>type Board struct { Pieces [8][8]Piece }\<close>: rows of cells.\<close>

record Board =
  Pieces :: "Piece list list"

definition new_Board :: Board where
  "new_Board = \<lparr>Pieces = replicate 8 (replicate 8 Empty)\<rparr>"

text \<open>\<^verbatim>\<open>echo.NewHTTPError(code, message)\<close>: the error value carries a status code and a message.\<close>

datatype HTTPError = HTTPError (Code: nat) (Message: string)

definition echo_NewHTTPError :: "nat \<Rightarrow> string \<Rightarrow> HTTPError" where
  "echo_NewHTTPError code msg = HTTPError code msg"

text \<open>A Go call either returns its results or panics.\<close>

datatype 'a outcome = Return 'a | Panic

section \<open>The structural pattern \<^verbatim>\<open>FEN\<close>\<close>

text \<open>
  The fragment of regular expressions that the pattern of \<^verbatim>\<open>main.go\<close> uses: a character
  class, a literal, concatenation and the counted repetition \<^verbatim>\<open>r{lo,hi}\<close>.
\<close>

datatype regex =
    Class "char list"
  | Lit char
  | Cat regex regex
  | Repeat regex nat nat

text \<open>
  \<open>repeat_from f lo hi s\<close>: the rests of \<open>s\<close> after at least \<open>lo\<close> and at most \<open>hi\<close>
  consecutive matches of \<open>f\<close>.
\<close>

fun repeat_from :: "(string \<Rightarrow> string list) \<Rightarrow> nat \<Rightarrow> nat \<Rightarrow> string \<Rightarrow> string list" where
  "repeat_from f lo 0 s = (if lo = 0 then [s] else [])"
| "repeat_from f lo (Suc hi) s =
     (if lo = 0 then [s] else []) @ concat (map (repeat_from f (lo - 1) hi) (f s))"

text \<open>\<open>match_prefix r s\<close>: the rests of \<open>s\<close> after each prefix of \<open>s\<close> that \<open>r\<close> matches.\<close>

primrec match_prefix :: "regex \<Rightarrow> string \<Rightarrow> string list" where
  "match_prefix (Class cs) = (\<lambda>s. case s of [] \<Rightarrow> [] | c # t \<Rightarrow> if c \<in> set cs then [t] else [])"
| "match_prefix (Lit a) = (\<lambda>s. case s of [] \<Rightarrow> [] | c # t \<Rightarrow> if c = a then [t] else [])"
| "match_prefix (Cat r1 r2) = (\<lambda>s. concat (map (match_prefix r2) (match_prefix r1 s)))"
| "match_prefix (Repeat r lo hi) = repeat_from (match_prefix r) lo hi"

text \<open>
  \<^verbatim>\<open>[rnbqkpRNBQKP1-8]\<close> and
  \<^verbatim>\<open>^([rnbqkpRNBQKP1-8]{1,8}/){7}[rnbqkpRNBQKP1-8]{1,8}$\<close>. The pattern is anchored at
  both ends (\<^verbatim>\<open>$\<close> without flags is the end of the text), so \<^verbatim>\<open>MatchString\<close> holds
  exactly when the whole string is matched.
\<close>

definition FEN_class :: "char list" where
  "FEN_class = ''rnbqkpRNBQKP12345678''"

definition FEN :: regex where
  "FEN = Cat (Repeat (Cat (Repeat (Class FEN_class) 1 8) (Lit CHR ''/'')) 7 7)
             (Repeat (Class FEN_class) 1 8)"

definition MatchString :: "regex \<Rightarrow> string \<Rightarrow> bool" where
  "MatchString r s = ([] \<in> set (match_prefix r s))"

section \<open>Library functions used by \<^verbatim>\<open>validate\<close>\<close>

text \<open>\<^verbatim>\<open>strings.Split(s, sep)\<close> for a separator of one character.\<close>

fun strings_Split :: "string \<Rightarrow> char \<Rightarrow> string list" where
  "strings_Split [] sep = [[]]"
| "strings_Split (c # cs) sep =
     (if c = sep then [] # strings_Split cs sep
      else (case strings_Split cs sep of
              [] \<Rightarrow> [[c]]
            | seg # segs \<Rightarrow> (c # seg) # segs))"

text \<open>
  \<^verbatim>\<open>strconv.Atoi\<close>: an optional sign and decimal digits; the result is the value and
  whether an error was returned (a syntax error gives 0, a value outside 64 bits
  gives the nearest bound).
\<close>

definition is_digit :: "char \<Rightarrow> bool" where
  "is_digit c = (of_char CHR ''0'' \<le> (of_char c :: nat) \<and> (of_char c :: nat) \<le> of_char CHR ''9'')"

definition digit_val :: "char \<Rightarrow> int" where
  "digit_val c = of_char c - of_char CHR ''0''"

definition strconv_Atoi :: "string \<Rightarrow> int \<times> bool" where
  "strconv_Atoi s =
     (let neg = (case s of c # _ \<Rightarrow> c = CHR ''-'' | [] \<Rightarrow> False);
          ds = (case s of c # t \<Rightarrow> if c = CHR ''+'' \<or> c = CHR ''-'' then t else s | [] \<Rightarrow> s)
      in if ds = [] \<or> \<not> list_all is_digit ds then (0, True)
         else
           (let v = foldl (\<lambda>n c. 10 * n + digit_val c) 0 ds;
                v' = (if neg then - v else v)
            in if v' > 2 ^ 63 - 1 then (2 ^ 63 - 1, True)
               else if v' < - (2 ^ 63) then (- (2 ^ 63), True)
               else (v', False)))"

text \<open>\<^verbatim>\<open>copy(dst, src)\<close> overwrites the first \<open>min (len dst) (len src)\<close> elements of \<open>dst\<close>.\<close>

definition copy :: "'a list \<Rightarrow> 'a list \<Rightarrow> 'a list" where
  "copy dst src = take (length dst) src @ drop (length src) dst"

section \<open>\<^verbatim>\<open>validate\<close>\<close>

text \<open>
  The inner loop over the characters of a segment (lines 117 to 128): a character that
  \<^verbatim>\<open>pieceChars\<close> maps to a piece appends it; any other character is handed to
  \<^verbatim>\<open>strconv.Atoi\<close>, whose error is dropped, and that many \<open>Empty\<close> cells are appended.
  The loop of the source runs over the runes of the segment; a string that the pattern
  has matched holds ASCII characters only, one rune for each character.
\<close>

fun segment_loop :: "string \<Rightarrow> Piece list \<Rightarrow> Piece list" where
  "segment_loop [] rowPieces = rowPieces"
| "segment_loop (char # rest) rowPieces =
     (let piece = pieceChars_at char in
      if piece = Empty then
        (let blanks = fst (strconv_Atoi [char])
         in segment_loop rest (rowPieces @ replicate (nat blanks) Empty))
      else segment_loop rest (rowPieces @ [piece]))"

text \<open>
  The outer loop over the segments (lines 115 to 135). Writing
  \<^verbatim>\<open>result.Pieces[row]\<close> with \<open>row\<close> outside the array of 8 rows panics.
\<close>

fun rows_loop :: "nat \<Rightarrow> string list \<Rightarrow> Board \<Rightarrow> (Board option \<times> HTTPError option) outcome" where
  "rows_loop row [] result = Return (Some result, None)"
| "rows_loop row (segment # rest) result =
     (let rowPieces = segment_loop segment [] in
      if length rowPieces \<noteq> 8 then Return (None, Some (echo_NewHTTPError 400 ''Invalid FEN''))
      else if row \<ge> length (Pieces result) then Panic
      else rows_loop (Suc row) rest
             (result\<lparr>Pieces := (Pieces result)[row := copy (Pieces result ! row) rowPieces]\<rparr>))"

definition validate :: "string \<Rightarrow> (Board option \<times> HTTPError option) outcome" where
  "validate board =
     (if \<not> MatchString FEN board then Return (None, Some (echo_NewHTTPError 400 ''Invalid FEN''))
      else rows_loop 0 (strings_Split board CHR ''/'') new_Board)"

section \<open>Images and drawing\<close>

text \<open>
  The packages \<^verbatim>\<open>image\<close>, \<^verbatim>\<open>image/color\<close> and \<^verbatim>\<open>image/draw\<close> of the Go library, as far
  as \<^verbatim>\<open>render\<close> uses them. Coordinates are Go's \<^verbatim>\<open>int\<close>; they stay far below 64 bits here.
\<close>

record Point =
  X :: int
  Y :: int

record Rectangle =
  Min :: Point
  Max :: Point

text \<open>\<^verbatim>\<open>image.Rect\<close> orders the corners; \<^verbatim>\<open>Empty\<close>, \<^verbatim>\<open>Intersect\<close>, \<^verbatim>\<open>Add\<close> and \<^verbatim>\<open>Point.In\<close>.\<close>

definition image_Rect :: "int \<Rightarrow> int \<Rightarrow> int \<Rightarrow> int \<Rightarrow> Rectangle" where
  "image_Rect x0 y0 x1 y1 =
     \<lparr>Min = \<lparr>X = min x0 x1, Y = min y0 y1\<rparr>, Max = \<lparr>X = max x0 x1, Y = max y0 y1\<rparr>\<rparr>"

definition Rectangle_Empty :: "Rectangle \<Rightarrow> bool" where
  "Rectangle_Empty r = (X (Min r) \<ge> X (Max r) \<or> Y (Min r) \<ge> Y (Max r))"

definition ZR :: Rectangle where
  "ZR = \<lparr>Min = \<lparr>X = 0, Y = 0\<rparr>, Max = \<lparr>X = 0, Y = 0\<rparr>\<rparr>"

definition Intersect :: "Rectangle \<Rightarrow> Rectangle \<Rightarrow> Rectangle" where
  "Intersect r s =
     (let r' = \<lparr>Min = \<lparr>X = max (X (Min r)) (X (Min s)), Y = max (Y (Min r)) (Y (Min s))\<rparr>,
                Max = \<lparr>X = min (X (Max r)) (X (Max s)), Y = min (Y (Max r)) (Y (Max s))\<rparr>\<rparr>
      in if Rectangle_Empty r' then ZR else r')"

definition Rectangle_Add :: "Rectangle \<Rightarrow> Point \<Rightarrow> Rectangle" where
  "Rectangle_Add r p =
     \<lparr>Min = \<lparr>X = X (Min r) + X p, Y = Y (Min r) + Y p\<rparr>,
      Max = \<lparr>X = X (Max r) + X p, Y = Y (Max r) + Y p\<rparr>\<rparr>"

definition Point_Sub :: "Point \<Rightarrow> Point \<Rightarrow> Point" where
  "Point_Sub p q = \<lparr>X = X p - X q, Y = Y p - Y q\<rparr>"

definition Point_In :: "Point \<Rightarrow> Rectangle \<Rightarrow> bool" where
  "Point_In p r = (X (Min r) \<le> X p \<and> X p < X (Max r) \<and> Y (Min r) \<le> Y p \<and> Y p < Y (Max r))"

text \<open>
  \<^verbatim>\<open>color.RGBA\<close>: four bytes. What \<^verbatim>\<open>Color.RGBA()\<close> returns: four \<^verbatim>\<open>uint32\<close>, each a
  16-bit alpha-premultiplied channel.
\<close>

record color_RGBA =
  R :: "8 word"
  G :: "8 word"
  B :: "8 word"
  A :: "8 word"

record Color =
  r16 :: "32 word"
  g16 :: "32 word"
  b16 :: "32 word"
  a16 :: "32 word"

text \<open>\<^verbatim>\<open>func (c RGBA) RGBA()\<close>: \<^verbatim>\<open>r = uint32(c.R); r |= r << 8\<close>, and so on.\<close>

definition RGBA_RGBA :: "color_RGBA \<Rightarrow> Color" where
  "RGBA_RGBA c =
     \<lparr>r16 = or (ucast (R c)) (push_bit 8 (ucast (R c))),
      g16 = or (ucast (G c)) (push_bit 8 (ucast (G c))),
      b16 = or (ucast (B c)) (push_bit 8 (ucast (B c))),
      a16 = or (ucast (A c)) (push_bit 8 (ucast (A c)))\<rparr>"

text \<open>\<^verbatim>\<open>color.White = Gray16{0xffff}\<close>.\<close>

definition color_White :: Color where
  "color_White = \<lparr>r16 = 0xffff, g16 = 0xffff, b16 = 0xffff, a16 = 0xffff\<rparr>"

text \<open>
  \<^verbatim>\<open>image.Image\<close>: bounds and the colour at each point (already converted by
  \<^verbatim>\<open>RGBA()\<close>). \<^verbatim>\<open>image.NewUniform\<close> is an image of one colour with the bounds
  \<^verbatim>\<open>(-1e9,-1e9)-(1e9,1e9)\<close>.
\<close>

record Image =
  Bounds :: Rectangle
  At :: "int \<Rightarrow> int \<Rightarrow> Color"

definition image_NewUniform :: "Color \<Rightarrow> Image" where
  "image_NewUniform c =
     \<lparr>Bounds = \<lparr>Min = \<lparr>X = - 1000000000, Y = - 1000000000\<rparr>,
                 Max = \<lparr>X = 1000000000, Y = 1000000000\<rparr>\<rparr>,
      At = (\<lambda>x y. c)\<rparr>"

definition image_White :: Image where
  "image_White = image_NewUniform color_White"

text \<open>
  \<^verbatim>\<open>image.RGBA\<close>: the pixel buffer \<^verbatim>\<open>Pix\<close> (four bytes for each pixel, read here by the
  coordinates of the pixel), \<^verbatim>\<open>Stride\<close> (bytes between vertically adjacent pixels)
  and \<^verbatim>\<open>Rect\<close>. \<^verbatim>\<open>image.NewRGBA\<close> allocates a zeroed buffer with \<^verbatim>\<open>Stride = 4 * w\<close>.
\<close>

record RGBA =
  Pix :: "int \<times> int \<Rightarrow> color_RGBA"
  Stride :: int
  Rect :: Rectangle

definition image_NewRGBA :: "Rectangle \<Rightarrow> RGBA" where
  "image_NewRGBA r =
     \<lparr>Pix = (\<lambda>p. \<lparr>R = 0, G = 0, B = 0, A = 0\<rparr>),
      Stride = 4 * (X (Max r) - X (Min r)),
      Rect = r\<rparr>"

datatype Op = Over | Src

text \<open>
  One destination channel of \<^verbatim>\<open>image/draw\<close> on an \<^verbatim>\<open>*image.RGBA\<close> without a mask, in
  \<^verbatim>\<open>uint32\<close> arithmetic with \<^verbatim>\<open>m = 1<<16 - 1\<close>: for \<^verbatim>\<open>Src\<close> the byte
  \<^verbatim>\<open>uint8(s >> 8)\<close>, for \<^verbatim>\<open>Over\<close> the byte \<^verbatim>\<open>uint8((d*a/m + s) >> 8)\<close> with
  \<^verbatim>\<open>a = (m - sa) * 0x101\<close>. The paths of the package for the different source types
  compute this value on every alpha-premultiplied colour (\<open>s \<le> sa\<close>), which is what
  \<^verbatim>\<open>RGBA()\<close> returns.
\<close>

definition over_channel :: "32 word \<Rightarrow> 32 word \<Rightarrow> 8 word \<Rightarrow> 8 word" where
  "over_channel s sa d =
     (let m = (0xffff :: 32 word);
          a = (m - sa) * 0x101
      in ucast (drop_bit 8 ((ucast d * a) div m + s)))"

definition src_channel :: "32 word \<Rightarrow> 8 word" where
  "src_channel s = ucast (drop_bit 8 s)"

definition blend :: "Op \<Rightarrow> Color \<Rightarrow> color_RGBA \<Rightarrow> color_RGBA" where
  "blend op c d =
     (case op of
        Src \<Rightarrow> \<lparr>R = src_channel (r16 c), G = src_channel (g16 c),
                B = src_channel (b16 c), A = src_channel (a16 c)\<rparr>
      | Over \<Rightarrow> \<lparr>R = over_channel (r16 c) (a16 c) (R d), G = over_channel (g16 c) (a16 c) (G d),
                 B = over_channel (b16 c) (a16 c) (B d), A = over_channel (a16 c) (a16 c) (A d)\<rparr>)"

text \<open>
  \<^verbatim>\<open>draw.Draw(dst, r, src, sp, op)\<close>: \<open>r\<close> is clipped to the bounds of \<open>dst\<close> and to
  the bounds of \<open>src\<close> moved so that \<open>sp\<close> lies on the corner of \<open>r\<close>; every pixel of
  the clipped rectangle becomes \<open>src op dst\<close>, the source being read at the
  point aligned with it.
\<close>

definition draw_clip :: "RGBA \<Rightarrow> Rectangle \<Rightarrow> Image \<Rightarrow> Point \<Rightarrow> Rectangle" where
  "draw_clip dst r src sp =
     Intersect (Intersect r (Rect dst)) (Rectangle_Add (Bounds src) (Point_Sub (Min r) sp))"

definition draw_Draw :: "RGBA \<Rightarrow> Rectangle \<Rightarrow> Image \<Rightarrow> Point \<Rightarrow> Op \<Rightarrow> RGBA" where
  "draw_Draw dst r src sp op =
     (let clipped = draw_clip dst r src sp in
      dst\<lparr>Pix := (\<lambda>(x, y).
          if Point_In \<lparr>X = x, Y = y\<rparr> clipped
          then blend op (At src (x - X (Min r) + X sp) (y - Y (Min r) + Y sp)) (Pix dst (x, y))
          else Pix dst (x, y))\<rparr>)"

section \<open>\<^verbatim>\<open>render\<close>\<close>

text \<open>
  The twelve images that \<^verbatim>\<open>loadImage\<close> decodes when the program starts. The files
  are not part of the sources, so the images are a parameter.
\<close>

record Images =
  WhitePawnImage :: Image
  WhiteKnightImage :: Image
  WhiteBishopImage :: Image
  WhiteRookImage :: Image
  WhiteQueenImage :: Image
  WhiteKingImage :: Image
  BlackPawnImage :: Image
  BlackKnightImage :: Image
  BlackBishopImage :: Image
  BlackRookImage :: Image
  BlackQueenImage :: Image
  BlackKingImage :: Image

text \<open>\<^verbatim>\<open>var pieceImages = map[Piece]image.Image{...}\<close>.\<close>

definition pieceImages :: "Images \<Rightarrow> Piece \<rightharpoonup> Image" where
  "pieceImages I = map_of
     [(WhitePawn, WhitePawnImage I), (WhiteKnight, WhiteKnightImage I),
      (WhiteBishop, WhiteBishopImage I), (WhiteRook, WhiteRookImage I),
      (WhiteQueen, WhiteQueenImage I), (WhiteKing, WhiteKingImage I),
      (BlackPawn, BlackPawnImage I), (BlackKnight, BlackKnightImage I),
      (BlackBishop, BlackBishopImage I), (BlackRook, BlackRookImage I),
      (BlackQueen, BlackQueenImage I), (BlackKing, BlackKingImage I)]"

text \<open>\<^verbatim>\<open>image.Rect(column*64, row*64, (column*64)+64, (row*64)+64)\<close>.\<close>

definition tile_rect :: "nat \<Rightarrow> nat \<Rightarrow> Rectangle" where
  "tile_rect row column =
     image_Rect (int column * 64) (int row * 64) (int column * 64 + 64) (int row * 64 + 64)"

definition dark_gray :: color_RGBA where
  "dark_gray = \<lparr>R = 0x4f, G = 0x4f, B = 0x4f, A = 0xff\<rparr>"

text \<open>Lines 154 to 163: the tile is filled when \<^verbatim>\<open>(row + column) % 2\<close> is 0.\<close>

definition paint_tile :: "nat \<Rightarrow> nat \<Rightarrow> RGBA \<Rightarrow> RGBA" where
  "paint_tile row column img =
     (let tileColour = (row + column) mod 2 in
      if tileColour = 0
      then draw_Draw img (tile_rect row column) (image_NewUniform (RGBA_RGBA dark_gray))
             \<lparr>X = 0, Y = 0\<rparr> Src
      else img)"

text \<open>
  Lines 165 to 171: nothing for \<open>Empty\<close>; otherwise the image of the piece is drawn
  over the tile. A key missing from \<^verbatim>\<open>pieceImages\<close> would give a nil image, on which
  \<^verbatim>\<open>draw.Draw\<close> panics.
\<close>

definition draw_piece :: "Images \<Rightarrow> Piece \<Rightarrow> nat \<Rightarrow> nat \<Rightarrow> RGBA \<Rightarrow> RGBA outcome" where
  "draw_piece I piece row column img =
     (if piece = Empty then Return img
      else (case pieceImages I piece of
              None \<Rightarrow> Panic
            | Some pieceImage \<Rightarrow>
                Return (draw_Draw img (tile_rect row column) pieceImage \<lparr>X = 0, Y = 0\<rparr> Over)))"

text \<open>The body of the inner loop (lines 153 to 171).\<close>

definition render_cell :: "Images \<Rightarrow> Board \<Rightarrow> nat \<Rightarrow> nat \<Rightarrow> RGBA \<Rightarrow> RGBA outcome" where
  "render_cell I b row column img =
     (let piece = Pieces b ! row ! column
      in draw_piece I piece row column (paint_tile row column img))"

text \<open>\<^verbatim>\<open>for column := 0; column < 8; column++\<close> and \<^verbatim>\<open>for row := 0; row < 8; row++\<close>.\<close>

function column_loop :: "Images \<Rightarrow> Board \<Rightarrow> nat \<Rightarrow> nat \<Rightarrow> RGBA \<Rightarrow> RGBA outcome" where
  "column_loop I b row column img =
     (if column < 8
      then (case render_cell I b row column img of
              Panic \<Rightarrow> Panic
            | Return img' \<Rightarrow> column_loop I b row (column + 1) img')
      else Return img)"
  by pat_completeness auto
termination
  by (relation "measure (\<lambda>(I, b, row, column, img). 8 - column)") auto

function row_loop :: "Images \<Rightarrow> Board \<Rightarrow> nat \<Rightarrow> RGBA \<Rightarrow> RGBA outcome" where
  "row_loop I b row img =
     (if row < 8
      then (case column_loop I b row 0 img of
              Panic \<Rightarrow> Panic
            | Return img' \<Rightarrow> row_loop I b (row + 1) img')
      else Return img)"
  by pat_completeness auto
termination
  by (relation "measure (\<lambda>(I, b, row, img). 8 - row)") auto

text \<open>
  Lines 148 and 149: the canvas of 512 by 512 pixels, filled with \<^verbatim>\<open>image.White\<close>.
\<close>

definition background :: RGBA where
  "background =
     (let img = image_NewRGBA (image_Rect 0 0 512 512)
      in draw_Draw img (Rect img) image_White \<lparr>X = 0, Y = 0\<rparr> Src)"

text \<open>
  What \<^verbatim>\<open>render\<close> writes to the response: either the status and text of
  \<^verbatim>\<open>c.String(code, text)\<close>, or the two headers and the image handed to \<^verbatim>\<open>png.Encode\<close>
  (the header \<^verbatim>\<open>X-Processing-Time\<close> is kept as the duration, before it is printed;
  the line that \<^verbatim>\<open>fmt.Printf\<close> sends to the standard output is not part of the
  response). The environment of a call: the images, the clock at \<^verbatim>\<open>time.Now()\<close> and at
  \<^verbatim>\<open>time.Since(start)\<close>, and the text that \<^verbatim>\<open>Error()\<close> of echo's error value gives
  (echo is not part of the sources).
\<close>

datatype Response =
    String (code: nat) (body: string)
  | PNG (ContentType: string) (ProcessingTime: int) (image: RGBA)

record Env =
  images :: Images
  start :: int
  finish :: int
  Error :: "HTTPError \<Rightarrow> string"

definition render :: "string \<Rightarrow> Env \<Rightarrow> Response outcome" where
  "render board c =
     (case validate board of
        Panic \<Rightarrow> Panic
      | Return (_, Some err) \<Rightarrow> Return (String 400 (Error c err))
      | Return (None, None) \<Rightarrow> Panic
      | Return (Some b, None) \<Rightarrow>
          (case row_loop (images c) b 0 background of
             Panic \<Rightarrow> Panic
           | Return img \<Rightarrow>
               (let processingTime = finish c - start c
                in Return (PNG ''image/png'' processingTime img))))"

section \<open>The specification's side\<close>

text \<open>
  The structural pattern in the words of the specification: exactly 8 segments
  separated by \<^verbatim>\<open>/\<close>, each of 1 to 8 characters drawn from the 12 piece letters and
  the digits 1 to 8.
\<close>

definition spec_symbol :: "char \<Rightarrow> bool" where
  "spec_symbol c = (c \<in> set ''rnbqkpRNBQKP'' \<or> c \<in> set ''12345678'')"

definition spec_segment :: "string \<Rightarrow> bool" where
  "spec_segment seg = (1 \<le> length seg \<and> length seg \<le> 8 \<and> list_all spec_symbol seg)"

definition structural_pattern :: "string \<Rightarrow> bool" where
  "structural_pattern s =
     (let segs = strings_Split s CHR ''/''
      in length segs = 8 \<and> list_all spec_segment segs)"

text \<open>
  The expansion of a row in the words of the specification: the symbol vocabulary
  (\<^verbatim>\<open>P N B R Q K\<close> white, \<^verbatim>\<open>p n b r q k\<close> black) gives one cell for a letter, and a
  digit \<open>d\<close> gives \<open>d\<close> consecutive \<open>Empty\<close> cells.
\<close>

definition symbol_vocabulary :: "(char \<times> Piece) list" where
  "symbol_vocabulary =
     [(CHR ''P'', WhitePawn), (CHR ''N'', WhiteKnight), (CHR ''B'', WhiteBishop),
      (CHR ''R'', WhiteRook), (CHR ''Q'', WhiteQueen), (CHR ''K'', WhiteKing),
      (CHR ''p'', BlackPawn), (CHR ''n'', BlackKnight), (CHR ''b'', BlackBishop),
      (CHR ''r'', BlackRook), (CHR ''q'', BlackQueen), (CHR ''k'', BlackKing)]"

definition digit_runs :: "(char \<times> nat) list" where
  "digit_runs =
     [(CHR ''1'', 1), (CHR ''2'', 2), (CHR ''3'', 3), (CHR ''4'', 4),
      (CHR ''5'', 5), (CHR ''6'', 6), (CHR ''7'', 7), (CHR ''8'', 8)]"

definition spec_cells :: "char \<Rightarrow> Piece list" where
  "spec_cells c =
     (case map_of symbol_vocabulary c of
        Some p \<Rightarrow> [p]
      | None \<Rightarrow> (case map_of digit_runs c of Some d \<Rightarrow> replicate d Empty | None \<Rightarrow> []))"

definition spec_expand :: "string \<Rightarrow> Piece list" where
  "spec_expand seg = concat (map spec_cells seg)"




text \<open>A complete board: 8 rows of 8 cells, as the type \<^verbatim>\<open>[8][8]Piece\<close> has them.\<close>

definition board_ok :: "Board \<Rightarrow> bool" where
  "board_ok b = (length (Pieces b) = 8 \<and> list_all (\<lambda>r. length r = 8) (Pieces b))"

text \<open>
  Modelled from the spec: the re-serialization of a board back to notation. The
  repository has no serializer; the specification describes it as row-major, each
  maximal run of consecutive \<open>Empty\<close> cells written as its length in one digit, the
  letter of the symbol vocabulary for every other cell, and the rows joined by
  \<^verbatim>\<open>/\<close>.
\<close>

fun strings_Join :: "string list \<Rightarrow> char \<Rightarrow> string" where
  "strings_Join [] sep = []"
| "strings_Join [seg] sep = seg"
| "strings_Join (seg # segs) sep = seg @ sep # strings_Join segs sep"

text \<open>
  Modelled from the spec: the letter of a piece (the symbol vocabulary read from the
  piece to the letter; none for \<open>Empty\<close>) and the digit of a run of 1 to 8 cells.
\<close>

definition piece_symbol :: "Piece \<rightharpoonup> char" where
  "piece_symbol = map_of (map (\<lambda>(c, p). (p, c)) symbol_vocabulary)"

definition run_digit :: "nat \<rightharpoonup> char" where
  "run_digit = map_of (map (\<lambda>(c, d). (d, c)) digit_runs)"

text \<open>
  Modelled from the spec: a row is written from left to right, \<open>run\<close> counting the
  \<open>Empty\<close> cells since the last letter; the run is written when a letter or the end
  of the row closes it.
\<close>

definition serialize_run :: "nat \<Rightarrow> string" where
  "serialize_run n = (case run_digit n of None \<Rightarrow> [] | Some c \<Rightarrow> [c])"

fun serialize_row :: "nat \<Rightarrow> Piece list \<Rightarrow> string" where
  "serialize_row run [] = serialize_run run"
| "serialize_row run (p # ps) =
     (case piece_symbol p of
        None \<Rightarrow> serialize_row (Suc run) ps
      | Some c \<Rightarrow> serialize_run run @ c # serialize_row 0 ps)"

text \<open>Modelled from the spec: the rows in order, joined by \<^verbatim>\<open>/\<close>.\<close>

definition serialize :: "Board \<Rightarrow> string" where
  "serialize b = strings_Join (map (serialize_row 0) (Pieces b)) CHR ''/''"

section \<open>Auxiliary notions of the proofs\<close>

text \<open>A segment that the class repetition \<^verbatim>\<open>[...]{1,8}\<close> matches.\<close>

definition segment_ok :: "char list \<Rightarrow> string \<Rightarrow> bool" where
  "segment_ok cs p = (1 \<le> length p \<and> length p \<le> 8 \<and> set p \<subseteq> set cs)"

text \<open>The cells that one character adds to \<^verbatim>\<open>rowPieces\<close> in \<open>segment_loop\<close>.\<close>

definition char_cells :: "char \<Rightarrow> Piece list" where
  "char_cells c =
     (let piece = pieceChars_at c in
      if piece = Empty then replicate (nat (fst (strconv_Atoi [c]))) Empty else [piece])"

text \<open>The colour that \<^verbatim>\<open>image.White\<close> leaves in the destination.\<close>

definition white :: color_RGBA where
  "white = \<lparr>R = 0xff, G = 0xff, B = 0xff, A = 0xff\<rparr>"

text \<open>
  One pixel of a tile, before and after the two steps of the loop body: the colour of
  the tile over the previous pixel \<open>d\<close>, and the image of the piece (none for \<open>Empty\<close>)
  over it, read at the point \<open>(sx, sy)\<close> of the image.
\<close>

definition tile_colour :: "nat \<Rightarrow> nat \<Rightarrow> color_RGBA \<Rightarrow> color_RGBA" where
  "tile_colour row column d = (if (row + column) mod 2 = 0 then dark_gray else d)"

definition piece_over :: "Images \<Rightarrow> Piece \<Rightarrow> int \<Rightarrow> int \<Rightarrow> color_RGBA \<Rightarrow> color_RGBA" where
  "piece_over I piece sx sy d =
     (case pieceImages I piece of
        None \<Rightarrow> d
      | Some pieceImage \<Rightarrow>
          if Point_In \<lparr>X = sx, Y = sy\<rparr> (Bounds pieceImage)
          then blend Over (At pieceImage sx sy) d
          else d)"

text \<open>
  \<open>cells_drawn I b S img img'\<close>: \<open>img'\<close> is \<open>img\<close> with the cells of \<open>S\<close> drawn and
  every other pixel unchanged.
\<close>

definition cells_drawn :: "Images \<Rightarrow> Board \<Rightarrow> (nat \<times> nat) set \<Rightarrow> RGBA \<Rightarrow> RGBA \<Rightarrow> bool" where
  "cells_drawn I b S img img' \<longleftrightarrow>
     Rect img' = Rect img \<and> Stride img' = Stride img \<and>
     (\<forall>x y.
        (\<forall>r c. (r, c) \<in> S \<longrightarrow> Point_In \<lparr>X = x, Y = y\<rparr> (tile_rect r c) \<longrightarrow>
           Pix img' (x, y) =
             piece_over I (Pieces b ! r ! c) (x - int c * 64) (y - int r * 64)
               (tile_colour r c (Pix img (x, y)))) \<and>
        ((\<forall>r c. (r, c) \<in> S \<longrightarrow> \<not> Point_In \<lparr>X = x, Y = y\<rparr> (tile_rect r c)) \<longrightarrow>
           Pix img' (x, y) = Pix img (x, y)))"

text \<open>The bitmap of a response, if it has one.\<close>

definition rendered_bitmap :: "Response outcome \<Rightarrow> RGBA option" where
  "rendered_bitmap res = (case res of Return (PNG _ _ img) \<Rightarrow> Some img | _ \<Rightarrow> None)"

text \<open>
  A sample environment for concrete runs. The image \<open>sample_piece k\<close> has 64 by 64
  pixels: transparent for \<open>x < 16\<close>, a half-transparent red for \<open>16 \<le> x < 32\<close>, and
  opaque with the red byte \<open>k\<close> from there on, so that the twelve images differ.
  \<open>echo_Error\<close> is the text of echo's \<^verbatim>\<open>Error()\<close> in the format
  \<^verbatim>\<open>code=%d, message=%v\<close>.
\<close>

definition sample_piece :: "32 word \<Rightarrow> Image" where
  "sample_piece k =
     \<lparr>Bounds = image_Rect 0 0 64 64,
      At = (\<lambda>x y. if x < 16 then \<lparr>r16 = 0, g16 = 0, b16 = 0, a16 = 0\<rparr>
                   else if x < 32 then \<lparr>r16 = 0x4000, g16 = 0, b16 = 0, a16 = 0x8000\<rparr>
                   else \<lparr>r16 = k * 0x100, g16 = 0, b16 = 0, a16 = 0xffff\<rparr>)\<rparr>"

definition sample_images :: Images where
  "sample_images =
     \<lparr>WhitePawnImage = sample_piece 1, WhiteKnightImage = sample_piece 2,
      WhiteBishopImage = sample_piece 3, WhiteRookImage = sample_piece 4,
      WhiteQueenImage = sample_piece 5, WhiteKingImage = sample_piece 6,
      BlackPawnImage = sample_piece 7, BlackKnightImage = sample_piece 8,
      BlackBishopImage = sample_piece 9, BlackRookImage = sample_piece 10,
      BlackQueenImage = sample_piece 11, BlackKingImage = sample_piece 12\<rparr>"

function decimal :: "nat \<Rightarrow> string" where
  "decimal n =
     (if n < 10 then [''0123456789'' ! n]
      else decimal (n div 10) @ [''0123456789'' ! (n mod 10)])"
  by pat_completeness auto
termination
  by (relation "measure (\<lambda>n. n)") auto

definition echo_Error :: "HTTPError \<Rightarrow> string" where
  "echo_Error he = ''code='' @ decimal (Code he) @ '', message='' @ Message he"

definition sample_env :: "int \<Rightarrow> int \<Rightarrow> Env" where
  "sample_env t0 t1 = \<lparr>images = sample_images, start = t0, finish = t1, Error = echo_Error\<rparr>"

section \<open>The pattern \<^verbatim>\<open>FEN\<close> matches exactly the structured strings\<close>

lemma repeat_from_set:
  assumes f: "\<And>s. set (f s) = {t. \<exists>p\<in>L. s = p @ t}"
  shows "set (repeat_from f lo hi s) =
         {t. \<exists>ps. lo \<le> length ps \<and> length ps \<le> hi \<and> set ps \<subseteq> L \<and> s = concat ps @ t}"
proof (induction hi arbitrary: lo s)
  case 0
  then show ?case by auto
next
  case (Suc hi)
  show ?case
  proof (intro set_eqI iffI)
    fix t assume "t \<in> set (repeat_from f lo (Suc hi) s)"
    then consider (none) "lo = 0" "t = s"
      | (more) u where "u \<in> set (f s)" "t \<in> set (repeat_from f (lo - 1) hi u)"
      by (auto split: if_splits)
    then show "t \<in> {t. \<exists>ps. lo \<le> length ps \<and> length ps \<le> Suc hi \<and> set ps \<subseteq> L \<and> s = concat ps @ t}"
    proof cases
      case none
      then have "lo \<le> length ([]::string list) \<and> length ([]::string list) \<le> Suc hi
                 \<and> set ([]::string list) \<subseteq> L \<and> s = concat [] @ t" by simp
      then show ?thesis by blast
    next
      case more
      from more(1) obtain p where p: "p \<in> L" "s = p @ u" using f by auto
      from more(2) obtain ps where ps: "lo - 1 \<le> length ps" "length ps \<le> hi" "set ps \<subseteq> L"
        "u = concat ps @ t" using Suc.IH by auto
      have "lo \<le> length (p # ps) \<and> length (p # ps) \<le> Suc hi \<and> set (p # ps) \<subseteq> L
            \<and> s = concat (p # ps) @ t" using p ps by auto
      then show ?thesis by blast
    qed
  next
    fix t assume "t \<in> {t. \<exists>ps. lo \<le> length ps \<and> length ps \<le> Suc hi \<and> set ps \<subseteq> L \<and> s = concat ps @ t}"
    then obtain ps where ps: "lo \<le> length ps" "length ps \<le> Suc hi" "set ps \<subseteq> L" "s = concat ps @ t"
      by auto
    show "t \<in> set (repeat_from f lo (Suc hi) s)"
    proof (cases ps)
      case Nil
      then show ?thesis using ps by simp
    next
      case (Cons p ps')
      have "concat ps' @ t \<in> set (f s)" using ps Cons f by auto
      moreover have "lo - 1 \<le> length ps' \<and> length ps' \<le> hi \<and> set ps' \<subseteq> L
                     \<and> concat ps' @ t = concat ps' @ t" using ps Cons by auto
      then have "t \<in> set (repeat_from f (lo - 1) hi (concat ps' @ t))"
        unfolding Suc.IH by blast
      ultimately show ?thesis by auto
    qed
  qed
qed

lemma match_Class_set: "set (match_prefix (Class cs) s) = {t. \<exists>p\<in>{[c] | c. c \<in> set cs}. s = p @ t}"
  by (cases s) auto

lemma concat_singletons:
  "set ps \<subseteq> {[c] | c. c \<in> set cs} \<Longrightarrow> length (concat ps) = length ps \<and> set (concat ps) \<subseteq> set cs"
  by (induction ps) auto

lemma singletons_concat:
  "set p \<subseteq> set cs \<Longrightarrow> set (map (\<lambda>c. [c]) p) \<subseteq> {[c] | c. c \<in> set cs} \<and> concat (map (\<lambda>c. [c]) p) = p"
  by (induction p) auto

lemma match_segment_set:
  "set (match_prefix (Repeat (Class cs) 1 8) s) = {t. \<exists>p\<in>{p. segment_ok cs p}. s = p @ t}"
proof -
  have "set (match_prefix (Repeat (Class cs) 1 8) s) =
        {t. \<exists>ps. 1 \<le> length ps \<and> length ps \<le> 8 \<and> set ps \<subseteq> {[c] | c. c \<in> set cs} \<and> s = concat ps @ t}"
    unfolding match_prefix.simps(4) by (rule repeat_from_set) (rule match_Class_set)
  also have "\<dots> = {t. \<exists>p\<in>{p. segment_ok cs p}. s = p @ t}"
  proof (intro set_eqI iffI)
    fix t assume "t \<in> {t. \<exists>ps. 1 \<le> length ps \<and> length ps \<le> 8 \<and> set ps \<subseteq> {[c] | c. c \<in> set cs} \<and> s = concat ps @ t}"
    then obtain ps where ps: "1 \<le> length ps" "length ps \<le> 8" "set ps \<subseteq> {[c] | c. c \<in> set cs}" "s = concat ps @ t"
      by blast
    then have "segment_ok cs (concat ps)" using concat_singletons [OF ps(3)] by (simp add: segment_ok_def)
    with ps(4) show "t \<in> {t. \<exists>p\<in>{p. segment_ok cs p}. s = p @ t}" by blast
  next
    fix t assume "t \<in> {t. \<exists>p\<in>{p. segment_ok cs p}. s = p @ t}"
    then obtain p where p: "segment_ok cs p" "s = p @ t" by blast
    let ?ps = "map (\<lambda>c. [c]) p"
    have "1 \<le> length ?ps \<and> length ?ps \<le> 8 \<and> set ?ps \<subseteq> {[c] | c. c \<in> set cs} \<and> s = concat ?ps @ t"
      using p singletons_concat [of p cs] by (simp add: segment_ok_def)
    then show "t \<in> {t. \<exists>ps. 1 \<le> length ps \<and> length ps \<le> 8 \<and> set ps \<subseteq> {[c] | c. c \<in> set cs} \<and> s = concat ps @ t}"
      by blast
  qed
  finally show ?thesis .
qed

lemma match_segment_slash_set:
  "set (match_prefix (Cat (Repeat (Class cs) 1 8) (Lit a)) s) =
   {t. \<exists>p\<in>{p @ [a] | p. segment_ok cs p}. s = p @ t}"
proof -
  have "set (match_prefix (Cat (Repeat (Class cs) 1 8) (Lit a)) s) =
        (\<Union>u\<in>set (match_prefix (Repeat (Class cs) 1 8) s). set (match_prefix (Lit a) u))"
    by simp
  also have "\<dots> = (\<Union>u\<in>{t. \<exists>p\<in>{p. segment_ok cs p}. s = p @ t}. {t. u = a # t})"
    unfolding match_segment_set by (auto split: list.splits if_splits)
  also have "\<dots> = {t. \<exists>p\<in>{p @ [a] | p. segment_ok cs p}. s = p @ t}"
    by auto
  finally show ?thesis .
qed

lemma match_rows_set:
  "set (match_prefix (Repeat (Cat (Repeat (Class cs) 1 8) (Lit a)) 7 7) s) =
   {t. \<exists>ps. 7 \<le> length ps \<and> length ps \<le> 7 \<and> set ps \<subseteq> {p @ [a] | p. segment_ok cs p} \<and> s = concat ps @ t}"
  unfolding match_prefix.simps(4) by (rule repeat_from_set) (rule match_segment_slash_set)

lemma match_segment_Nil: "[] \<in> set (match_prefix (Repeat (Class cs) 1 8) u) \<longleftrightarrow> segment_ok cs u"
  unfolding match_segment_set by auto

lemma MatchString_FEN_1:
  "MatchString FEN s \<longleftrightarrow>
   (\<exists>u\<in>set (match_prefix (Repeat (Cat (Repeat (Class FEN_class) 1 8) (Lit CHR ''/'')) 7 7) s).
      [] \<in> set (match_prefix (Repeat (Class FEN_class) 1 8) u))"
  unfolding MatchString_def FEN_def match_prefix.simps(3) set_concat set_map by blast

lemma slash_rows:
  "set pss \<subseteq> {p @ [a] | p. segment_ok cs p} \<Longrightarrow>
   (\<forall>p\<in>set (map butlast pss). segment_ok cs p) \<and> pss = map (\<lambda>p. p @ [a]) (map butlast pss)"
proof (induction pss)
  case Nil
  then show ?case by simp
next
  case (Cons x pss)
  from Cons.prems have "set pss \<subseteq> {p @ [a] | p. segment_ok cs p}" by simp
  note ih = Cons.IH [OF this]
  from Cons.prems have "x \<in> {p @ [a] | p. segment_ok cs p}" by simp
  then obtain p where p: "x = p @ [a]" "segment_ok cs p" by blast
  then have "butlast x = p" by simp
  then show ?case using ih p by simp
qed

lemma Split_not_Nil: "strings_Split s sep \<noteq> []"
  by (induction s) (auto split: list.splits)

lemma Split_append_sep:
  "sep \<notin> set p \<Longrightarrow> strings_Split (p @ sep # rest) sep = p # strings_Split rest sep"
  by (induction p) auto

lemma Split_no_sep: "sep \<notin> set p \<Longrightarrow> strings_Split p sep = [p]"
  by (induction p) auto

lemma Split_segments_no_sep: "seg \<in> set (strings_Split s sep) \<Longrightarrow> sep \<notin> set seg"
  by (induction s arbitrary: seg) (auto split: if_splits list.splits)

lemma Join_Split: "strings_Join (strings_Split s sep) sep = s"
proof (induction s)
  case Nil
  then show ?case by simp
next
  case (Cons c s)
  obtain seg segs where e: "strings_Split s sep = seg # segs"
    using Split_not_Nil [of s sep] by (cases "strings_Split s sep") auto
  show ?case
  proof (cases "c = sep")
    case True
    then show ?thesis using Cons e by simp
  next
    case False
    then show ?thesis using Cons e by (cases segs) auto
  qed
qed

lemma Split_rows:
  "\<forall>p\<in>set ps. sep \<notin> set p \<Longrightarrow> sep \<notin> set q \<Longrightarrow>
   strings_Split (concat (map (\<lambda>p. p @ [sep]) ps) @ q) sep = ps @ [q]"
  by (induction ps) (simp_all add: Split_no_sep Split_append_sep)

lemma Join_rows:
  "strings_Join (ps @ [q]) sep = concat (map (\<lambda>p. p @ [sep]) ps) @ q"
proof (induction ps)
  case Nil
  then show ?case by simp
next
  case (Cons p ps)
  then show ?case by (cases "ps @ [q]") auto
qed

lemma Split_Join:
  "segs \<noteq> [] \<Longrightarrow> \<forall>p\<in>set segs. sep \<notin> set p \<Longrightarrow> strings_Split (strings_Join segs sep) sep = segs"
proof -
  assume a: "segs \<noteq> []" "\<forall>p\<in>set segs. sep \<notin> set p"
  then have e: "segs = butlast segs @ [last segs]" by simp
  have "strings_Split (strings_Join (butlast segs @ [last segs]) sep) sep = butlast segs @ [last segs]"
    unfolding Join_rows using a by (intro Split_rows) (auto dest: in_set_butlastD)
  with e show ?thesis by simp
qed

lemma spec_symbol_class: "spec_symbol c \<longleftrightarrow> c \<in> set FEN_class"
  by (auto simp: spec_symbol_def FEN_class_def)

lemma spec_segment_ok: "spec_segment seg \<longleftrightarrow> segment_ok FEN_class seg"
  by (auto simp: spec_segment_def segment_ok_def list_all_iff spec_symbol_class)

lemma segment_ok_no_slash: "segment_ok FEN_class p \<Longrightarrow> CHR ''/'' \<notin> set p"
  by (auto simp: segment_ok_def FEN_class_def)

lemma MatchString_FEN_rows:
  "MatchString FEN s \<longleftrightarrow>
   (\<exists>ps q. length ps = 7 \<and> (\<forall>p\<in>set ps. segment_ok FEN_class p) \<and> segment_ok FEN_class q
      \<and> s = concat (map (\<lambda>p. p @ ''/'') ps) @ q)"
proof
  assume "MatchString FEN s"
  then obtain u pss where h: "7 \<le> length pss" "length pss \<le> 7"
      "set pss \<subseteq> {p @ ''/'' | p. segment_ok FEN_class p}" "s = concat pss @ u"
      "segment_ok FEN_class u"
    unfolding MatchString_FEN_1 match_rows_set match_segment_Nil by blast
  let ?ps = "map butlast pss"
  from slash_rows [OF h(3)] have r: "\<forall>p\<in>set ?ps. segment_ok FEN_class p" "pss = map (\<lambda>p. p @ ''/'') ?ps"
    by blast+
  have "length ?ps = 7" using h(1,2) by simp
  moreover have "s = concat (map (\<lambda>p. p @ ''/'') ?ps) @ u" using h(4) r(2) by simp
  ultimately have "length ?ps = 7 \<and> (\<forall>p\<in>set ?ps. segment_ok FEN_class p) \<and> segment_ok FEN_class u
      \<and> s = concat (map (\<lambda>p. p @ ''/'') ?ps) @ u" using r(1) h(5) by blast
  then show "\<exists>ps q. length ps = 7 \<and> (\<forall>p\<in>set ps. segment_ok FEN_class p) \<and> segment_ok FEN_class q
      \<and> s = concat (map (\<lambda>p. p @ ''/'') ps) @ q" by (intro exI [of _ ?ps] exI [of _ u])
next
  assume "\<exists>ps q. length ps = 7 \<and> (\<forall>p\<in>set ps. segment_ok FEN_class p) \<and> segment_ok FEN_class q
      \<and> s = concat (map (\<lambda>p. p @ ''/'') ps) @ q"
  then obtain ps q where h: "length ps = 7" "\<forall>p\<in>set ps. segment_ok FEN_class p" "segment_ok FEN_class q"
       "s = concat (map (\<lambda>p. p @ ''/'') ps) @ q" by blast
  let ?pss = "map (\<lambda>p. p @ ''/'') ps"
  have 1: "7 \<le> length ?pss \<and> length ?pss \<le> 7" using h(1) by simp
  have 2: "set ?pss \<subseteq> {p @ ''/'' | p. segment_ok FEN_class p}" using h(2) by auto
  have "7 \<le> length ?pss \<and> length ?pss \<le> 7 \<and> set ?pss \<subseteq> {p @ ''/'' | p. segment_ok FEN_class p}
        \<and> s = concat ?pss @ q"
    using 1 2 h(4) by blast
  then have "q \<in> set (match_prefix (Repeat (Cat (Repeat (Class FEN_class) 1 8) (Lit CHR ''/'')) 7 7) s)"
    unfolding match_rows_set by (intro CollectI exI [of _ ?pss])
  with h(3) show "MatchString FEN s"
    unfolding MatchString_FEN_1 match_segment_Nil by blast
qed

lemma MatchString_FEN_structural: "MatchString FEN s \<longleftrightarrow> structural_pattern s"
proof
  assume "MatchString FEN s"
  then obtain ps q where h: "length ps = 7" "\<forall>p\<in>set ps. segment_ok FEN_class p" "segment_ok FEN_class q"
       "s = concat (map (\<lambda>p. p @ ''/'') ps) @ q" unfolding MatchString_FEN_rows by blast
  have "strings_Split s CHR ''/'' = ps @ [q]"
    unfolding h(4) using h(2,3) by (intro Split_rows) (auto dest: segment_ok_no_slash)
  then show "structural_pattern s"
    using h(1,2,3) by (simp add: structural_pattern_def list_all_iff spec_segment_ok)
next
  assume a: "structural_pattern s"
  let ?segs = "strings_Split s CHR ''/''"
  from a have l: "length ?segs = 8" and ok: "\<forall>p\<in>set ?segs. segment_ok FEN_class p"
    by (simp_all add: structural_pattern_def list_all_iff spec_segment_ok Let_def)
  from l have ne: "?segs \<noteq> []" by auto
  then have e: "?segs = butlast ?segs @ [last ?segs]" by simp
  have "s = strings_Join ?segs CHR ''/''" by (simp add: Join_Split)
  also have "\<dots> = strings_Join (butlast ?segs @ [last ?segs]) CHR ''/''"
    by (simp only: e [symmetric])
  also have "\<dots> = concat (map (\<lambda>p. p @ ''/'') (butlast ?segs)) @ last ?segs" by (rule Join_rows)
  finally have s: "s = concat (map (\<lambda>p. p @ ''/'') (butlast ?segs)) @ last ?segs" .
  have "length (butlast ?segs) = 7" using l by simp
  moreover have "\<forall>p\<in>set (butlast ?segs). segment_ok FEN_class p" using ok by (auto dest: in_set_butlastD)
  moreover have "segment_ok FEN_class (last ?segs)" using ok ne by simp
  ultimately show "MatchString FEN s" unfolding MatchString_FEN_rows using s by blast
qed

lemma segment_loop_cells: "segment_loop seg acc = acc @ concat (map char_cells seg)"
  by (induction seg arbitrary: acc) (simp_all add: char_cells_def Let_def)

lemma digit_char_cases:
  "c \<in> set ''12345678'' \<Longrightarrow>
   c = CHR ''1'' \<or> c = CHR ''2'' \<or> c = CHR ''3'' \<or> c = CHR ''4'' \<or>
   c = CHR ''5'' \<or> c = CHR ''6'' \<or> c = CHR ''7'' \<or> c = CHR ''8''"
  by simp

lemma letter_char_cases:
  "c \<in> set ''rnbqkpRNBQKP'' \<Longrightarrow>
   c = CHR ''r'' \<or> c = CHR ''n'' \<or> c = CHR ''b'' \<or> c = CHR ''q'' \<or> c = CHR ''k'' \<or> c = CHR ''p'' \<or>
   c = CHR ''R'' \<or> c = CHR ''N'' \<or> c = CHR ''B'' \<or> c = CHR ''Q'' \<or> c = CHR ''K'' \<or> c = CHR ''P''"
  by simp

lemma Atoi_digit:
  "c \<in> set ''12345678'' \<Longrightarrow> strconv_Atoi [c] = (int (the (map_of digit_runs c)), False)"
  by (drule digit_char_cases, elim disjE)
     (simp_all add: strconv_Atoi_def is_digit_def digit_val_def digit_runs_def)

lemma pieceChars_digit: "c \<in> set ''12345678'' \<Longrightarrow> pieceChars c = None"
  by (drule digit_char_cases, elim disjE) (simp_all add: pieceChars_def)

lemma vocabulary_digit: "c \<in> set ''12345678'' \<Longrightarrow> map_of symbol_vocabulary c = None"
  by (drule digit_char_cases, elim disjE) (simp_all add: symbol_vocabulary_def)

lemma runs_digit: "c \<in> set ''12345678'' \<Longrightarrow> \<exists>d. map_of digit_runs c = Some d \<and> 1 \<le> d \<and> d \<le> 8"
  by (drule digit_char_cases, elim disjE) (simp_all add: digit_runs_def)

lemma pieceChars_letter:
  "c \<in> set ''rnbqkpRNBQKP'' \<Longrightarrow> \<exists>p. pieceChars c = Some p \<and> map_of symbol_vocabulary c = Some p \<and> p \<noteq> Empty"
  by (drule letter_char_cases, elim disjE) (simp_all add: pieceChars_def symbol_vocabulary_def)

lemma class_cases: "c \<in> set FEN_class \<Longrightarrow> c \<in> set ''rnbqkpRNBQKP'' \<or> c \<in> set ''12345678''"
  by (auto simp: FEN_class_def)

lemma char_cells_spec: "c \<in> set FEN_class \<Longrightarrow> char_cells c = spec_cells c"
proof -
  assume "c \<in> set FEN_class"
  then consider (letter) "c \<in> set ''rnbqkpRNBQKP''" | (digit) "c \<in> set ''12345678''"
    using class_cases by blast
  then show ?thesis
  proof cases
    case letter
    from pieceChars_letter [OF this] obtain p where
      "pieceChars c = Some p" "map_of symbol_vocabulary c = Some p" "p \<noteq> Empty" by blast
    then show ?thesis by (simp add: char_cells_def spec_cells_def pieceChars_at_def)
  next
    case digit
    from runs_digit [OF this] obtain d where "map_of digit_runs c = Some d" by blast
    then show ?thesis
      using Atoi_digit [OF digit] pieceChars_digit [OF digit] vocabulary_digit [OF digit]
      by (simp add: char_cells_def spec_cells_def pieceChars_at_def)
  qed
qed

lemma segment_loop_spec:
  "set seg \<subseteq> set FEN_class \<Longrightarrow> segment_loop seg [] = spec_expand seg"
proof -
  assume "set seg \<subseteq> set FEN_class"
  then have "map char_cells seg = map spec_cells seg" by (auto simp: char_cells_spec)
  then have "concat (map char_cells seg) = concat (map spec_cells seg)" by (simp only:)
  then show ?thesis unfolding segment_loop_cells spec_expand_def by simp
qed

lemma copy_full: "length dst = length src \<Longrightarrow> copy dst src = src"
  by (simp add: copy_def)

lemma rows_loop_result:
  "board_ok result \<Longrightarrow> row + length segs \<le> 8 \<Longrightarrow>
   rows_loop row segs result =
     (if list_all (\<lambda>seg. length (segment_loop seg []) = 8) segs
      then Return (Some (result\<lparr>Pieces := take row (Pieces result) @ map (\<lambda>seg. segment_loop seg []) segs
                                    @ drop (row + length segs) (Pieces result)\<rparr>), None)
      else Return (None, Some (HTTPError 400 ''Invalid FEN'')))"
proof (induction segs arbitrary: row result)
  case Nil
  then show ?case by simp
next
  case (Cons segment rest)
  let ?rp = "segment_loop segment []"
  show ?case
  proof (cases "length ?rp = 8")
    case False
    then show ?thesis by (simp add: echo_NewHTTPError_def)
  next
    case True
    let ?P = "Pieces result"
    let ?P' = "?P[row := copy (?P ! row) ?rp]"
    let ?result' = "result\<lparr>Pieces := ?P'\<rparr>"
    from Cons.prems have row: "row < 8" and len: "length ?P = 8" and rows: "\<forall>r\<in>set ?P. length r = 8"
      by (simp_all add: board_ok_def list_all_iff)
    have c: "copy (?P ! row) ?rp = ?rp" using True row len rows by (intro copy_full) simp
    have ok': "board_ok ?result'"
      using len rows True c by (auto simp: board_ok_def list_all_iff dest!: set_update_subset_insert [THEN subsetD])
    have le: "Suc row + length rest \<le> 8" using Cons.prems by simp
    have t: "take (Suc row) ?P' = take row ?P @ [?rp]"
      using row len c by (simp add: take_Suc_conv_app_nth)
    have d: "drop (Suc row + length rest) ?P' = drop (Suc row + length rest) ?P"
      by simp
    have "rows_loop row (segment # rest) result = rows_loop (Suc row) rest ?result'"
      using True row len by (simp add: Let_def)
    also note Cons.IH [OF ok' le]
    finally show ?thesis using True t d by simp
  qed
qed

lemma validate_matched:
  assumes "MatchString FEN s"
  shows "validate s =
     (if list_all (\<lambda>seg. length (spec_expand seg) = 8) (strings_Split s CHR ''/'')
      then Return (Some \<lparr>Pieces = map spec_expand (strings_Split s CHR ''/'')\<rparr>, None)
      else Return (None, Some (HTTPError 400 ''Invalid FEN'')))"
proof -
  let ?segs = "strings_Split s CHR ''/''"
  from assms have "structural_pattern s" by (simp add: MatchString_FEN_structural)
  then have l: "length ?segs = 8" and ok: "\<forall>p\<in>set ?segs. segment_ok FEN_class p"
    by (simp_all add: structural_pattern_def list_all_iff spec_segment_ok Let_def)
  have e: "map (\<lambda>seg. segment_loop seg []) ?segs = map spec_expand ?segs"
    using ok by (auto simp: segment_ok_def segment_loop_spec)
  have e2: "list_all (\<lambda>seg. length (segment_loop seg []) = 8) ?segs
          = list_all (\<lambda>seg. length (spec_expand seg) = 8) ?segs"
    using ok by (auto simp: list_all_iff segment_ok_def segment_loop_spec)
  have b: "board_ok new_Board" by (simp add: board_ok_def new_Board_def list_all_iff)
  have "validate s = rows_loop 0 ?segs new_Board" using assms by (simp add: validate_def)
  also have "\<dots> = (if list_all (\<lambda>seg. length (segment_loop seg []) = 8) ?segs
      then Return (Some (new_Board\<lparr>Pieces := take 0 (Pieces new_Board) @ map (\<lambda>seg. segment_loop seg []) ?segs
                                    @ drop (0 + length ?segs) (Pieces new_Board)\<rparr>), None)
      else Return (None, Some (HTTPError 400 ''Invalid FEN'')))"
    using l by (intro rows_loop_result [OF b]) simp
  finally show ?thesis unfolding e2 using l e by (simp add: new_Board_def)
qed

lemma run_cases [consumes 2]:
  fixes n :: nat
  assumes "1 \<le> n" "n \<le> 8"
  obtains (r1) "n = 1" | (r2) "n = 2" | (r3) "n = 3" | (r4) "n = 4"
        | (r5) "n = 5" | (r6) "n = 6" | (r7) "n = 7" | (r8) "n = 8"
  using assms by arith

lemma serialize_run_cells: "n \<le> 8 \<Longrightarrow> spec_expand (serialize_run n) = replicate n Empty"
proof (cases "n = 0")
  case True
  then show ?thesis by (simp add: serialize_run_def run_digit_def digit_runs_def spec_expand_def)
next
  case False
  assume "n \<le> 8"
  with False have "1 \<le> n" "n \<le> 8" by simp_all
  then show ?thesis
    by (cases rule: run_cases)
       (simp_all add: serialize_run_def run_digit_def spec_expand_def spec_cells_def symbol_vocabulary_def digit_runs_def)
qed

lemma serialize_run_class: "n \<le> 8 \<Longrightarrow> set (serialize_run n) \<subseteq> set FEN_class"
proof (cases "n = 0")
  case True
  then show ?thesis by (simp add: serialize_run_def run_digit_def digit_runs_def)
next
  case False
  assume "n \<le> 8"
  with False have "1 \<le> n" "n \<le> 8" by simp_all
  then show ?thesis
    by (cases rule: run_cases) (simp_all add: serialize_run_def run_digit_def digit_runs_def FEN_class_def)
qed

lemma serialize_run_length_le: "length (serialize_run n) \<le> (if n = 0 then 0 else 1)"
  by (simp add: serialize_run_def run_digit_def digit_runs_def split: option.splits)

lemma piece_symbol_None: "piece_symbol p = None \<longleftrightarrow> p = Empty"
  by (cases p) (simp_all add: piece_symbol_def symbol_vocabulary_def)

lemma piece_symbol_Some:
  "piece_symbol p = Some c \<Longrightarrow> map_of symbol_vocabulary c = Some p \<and> c \<in> set FEN_class"
  by (cases p) (auto simp: piece_symbol_def symbol_vocabulary_def FEN_class_def)

lemma spec_expand_append: "spec_expand (xs @ ys) = spec_expand xs @ spec_expand ys"
  by (simp add: spec_expand_def)

lemma spec_expand_Cons: "spec_expand (c # cs) = spec_cells c @ spec_expand cs"
  by (simp add: spec_expand_def)

lemma serialize_row_cells:
  "run + length ps \<le> 8 \<Longrightarrow> spec_expand (serialize_row run ps) = replicate run Empty @ ps"
proof (induction ps arbitrary: run)
  case Nil
  then show ?case by (simp add: serialize_run_cells)
next
  case (Cons p ps)
  show ?case
  proof (cases "piece_symbol p")
    case None
    then have "p = Empty" by (simp add: piece_symbol_None)
    then show ?thesis using None Cons.IH [of "Suc run"] Cons.prems
      by (simp add: replicate_app_Cons_same)
  next
    case (Some c)
    then have "spec_cells c = [p]" using piece_symbol_Some [OF Some] by (simp add: spec_cells_def)
    then show ?thesis using Some Cons.IH [of 0] Cons.prems
      by (simp add: spec_expand_append spec_expand_Cons serialize_run_cells)
  qed
qed

lemma serialize_row_class:
  "run + length ps \<le> 8 \<Longrightarrow> set (serialize_row run ps) \<subseteq> set FEN_class"
proof (induction ps arbitrary: run)
  case Nil
  then show ?case by (simp add: serialize_run_class)
next
  case (Cons p ps)
  show ?case
  proof (cases "piece_symbol p")
    case None
    then show ?thesis using Cons.IH [of "Suc run"] Cons.prems by simp
  next
    case (Some c)
    have "set (serialize_run run) \<subseteq> set FEN_class" using Cons.prems by (intro serialize_run_class) simp
    then show ?thesis using Some piece_symbol_Some [OF Some] Cons.IH [of 0] Cons.prems by simp
  qed
qed

lemma serialize_row_length_le:
  "length (serialize_row run ps) \<le> (if run = 0 then 0 else 1) + length ps"
proof (induction ps arbitrary: run)
  case Nil
  then show ?case using serialize_run_length_le [of run] by simp
next
  case (Cons p ps)
  show ?case
  proof (cases "piece_symbol p")
    case None
    then show ?thesis using Cons.IH [of "Suc run"] by simp
  next
    case (Some c)
    then show ?thesis using Cons.IH [of 0] serialize_run_length_le [of run] by simp
  qed
qed

lemma serialize_run_length_ge: "1 \<le> n \<Longrightarrow> n \<le> 8 \<Longrightarrow> length (serialize_run n) = 1"
  by (cases rule: run_cases) (simp_all add: serialize_run_def run_digit_def digit_runs_def)

lemma serialize_row_length_ge:
  "0 < run + length ps \<Longrightarrow> run + length ps \<le> 8 \<Longrightarrow> 1 \<le> length (serialize_row run ps)"
proof (induction ps arbitrary: run)
  case Nil
  then show ?case by (simp add: serialize_run_length_ge)
next
  case (Cons p ps)
  show ?case
  proof (cases "piece_symbol p")
    case None
    then show ?thesis using Cons.IH [of "Suc run"] Cons.prems by simp
  next
    case (Some c)
    then show ?thesis by simp
  qed
qed

lemma serialize_row_segment:
  "length ps = 8 \<Longrightarrow> segment_ok FEN_class (serialize_row 0 ps)"
  using serialize_row_length_le [of 0 ps] serialize_row_length_ge [of 0 ps] serialize_row_class [of 0 ps]
  by (simp add: segment_ok_def)

lemma validate_serialize:
  assumes "board_ok b"
  shows "validate (serialize b) = Return (Some b, None)"
proof -
  let ?rows = "map (serialize_row 0) (Pieces b)"
  from assms have len: "length (Pieces b) = 8" and rows: "\<forall>r\<in>set (Pieces b). length r = 8"
    by (simp_all add: board_ok_def list_all_iff)
  have ok: "\<forall>p\<in>set ?rows. segment_ok FEN_class p" using rows by (auto intro: serialize_row_segment)
  then have ns: "\<forall>p\<in>set ?rows. CHR ''/'' \<notin> set p" by (blast dest: segment_ok_no_slash)
  have ne: "?rows \<noteq> []" using len by auto
  have sp: "strings_Split (serialize b) CHR ''/'' = ?rows"
    unfolding serialize_def by (rule Split_Join [OF ne ns])
  have "structural_pattern (serialize b)"
    using ok len by (simp add: structural_pattern_def sp list_all_iff spec_segment_ok)
  then have m: "MatchString FEN (serialize b)" by (simp add: MatchString_FEN_structural)
  have ex: "map spec_expand ?rows = Pieces b"
    using rows by (simp add: map_idI serialize_row_cells)
  have all8: "list_all (\<lambda>seg. length (spec_expand seg) = 8) ?rows"
    using rows by (simp add: list_all_iff serialize_row_cells)
  show ?thesis
    unfolding validate_matched [OF m] sp using all8 ex by simp
qed

section \<open>The claims about \<^verbatim>\<open>validate\<close>\<close>

lemma MatchString_chars:
  assumes "MatchString FEN s" shows "set s \<subseteq> insert CHR ''/'' (set FEN_class)"
proof -
  from assms obtain ps q where h: "length ps = 7" "\<forall>p\<in>set ps. segment_ok FEN_class p" "segment_ok FEN_class q"
       "s = concat (map (\<lambda>p. p @ ''/'') ps) @ q" unfolding MatchString_FEN_rows by blast
  show ?thesis unfolding h(4) using h(2,3) by (auto simp: segment_ok_def)
qed

lemma validate_unmatched:
  "\<not> MatchString FEN s \<Longrightarrow> validate s = Return (None, Some (HTTPError 400 ''Invalid FEN''))"
  by (simp add: validate_def echo_NewHTTPError_def)

text \<open>
  Claim C1. A string that does not have the structure of the pattern (exactly 8
  segments separated by \<^verbatim>\<open>/\<close>, each of 1 to 8 characters among the 12 letters and the
  digits 1 to 8) is rejected by \<open>validate\<close> with the one error value and no board; so
  are a string of 7 segments, a string with the digit 9 or 0, and the empty string.
\<close>

theorem validate_rejects_unstructured:
  "(\<not> structural_pattern s \<longrightarrow> validate s = Return (None, Some (HTTPError 400 ''Invalid FEN'')))
   \<and> (length (strings_Split s CHR ''/'') = 7 \<longrightarrow> validate s = Return (None, Some (HTTPError 400 ''Invalid FEN'')))
   \<and> (CHR ''9'' \<in> set s \<or> CHR ''0'' \<in> set s \<longrightarrow> validate s = Return (None, Some (HTTPError 400 ''Invalid FEN'')))
   \<and> validate '''' = Return (None, Some (HTTPError 400 ''Invalid FEN''))"
proof (intro conjI impI)
  assume "\<not> structural_pattern s"
  then show "validate s = Return (None, Some (HTTPError 400 ''Invalid FEN''))"
    by (simp add: validate_unmatched MatchString_FEN_structural)
next
  assume "length (strings_Split s CHR ''/'') = 7"
  then have "\<not> structural_pattern s" by (simp add: structural_pattern_def)
  then show "validate s = Return (None, Some (HTTPError 400 ''Invalid FEN''))"
    by (simp add: validate_unmatched MatchString_FEN_structural)
next
  assume a: "CHR ''9'' \<in> set s \<or> CHR ''0'' \<in> set s"
  have "\<not> MatchString FEN s"
  proof
    assume "MatchString FEN s"
    from MatchString_chars [OF this] a show False by (auto simp: FEN_class_def)
  qed
  then show "validate s = Return (None, Some (HTTPError 400 ''Invalid FEN''))"
    by (rule validate_unmatched)
next
  have "\<not> structural_pattern ''''" by (simp add: structural_pattern_def)
  then show "validate '''' = Return (None, Some (HTTPError 400 ''Invalid FEN''))"
    by (simp add: validate_unmatched MatchString_FEN_structural)
qed

theorem validate_rejects_unstructured_witness:
  "\<not> structural_pattern ''8/8/8/8/8/8/8''
   \<and> length (strings_Split ''8/8/8/8/8/8/8'' CHR ''/'') = 7
   \<and> validate ''8/8/8/8/8/8/8'' = Return (None, Some (HTTPError 400 ''Invalid FEN''))
   \<and> CHR ''9'' \<in> set ''9/8/8/8/8/8/8/8''
   \<and> validate ''9/8/8/8/8/8/8/8'' = Return (None, Some (HTTPError 400 ''Invalid FEN''))
   \<and> CHR ''0'' \<in> set ''8/8/8/8/8/8/8/0''
   \<and> validate ''8/8/8/8/8/8/8/0'' = Return (None, Some (HTTPError 400 ''Invalid FEN''))"
proof -
  have l: "length (strings_Split ''8/8/8/8/8/8/8'' CHR ''/'') = 7" by simp
  then have n: "\<not> structural_pattern ''8/8/8/8/8/8/8''" by (simp add: structural_pattern_def)
  have 1: "validate ''8/8/8/8/8/8/8'' = Return (None, Some (HTTPError 400 ''Invalid FEN''))"
    using validate_rejects_unstructured [of "''8/8/8/8/8/8/8''"] n by blast
  have 9: "CHR ''9'' \<in> set ''9/8/8/8/8/8/8/8''" by simp
  then have 2: "validate ''9/8/8/8/8/8/8/8'' = Return (None, Some (HTTPError 400 ''Invalid FEN''))"
    using validate_rejects_unstructured [of "''9/8/8/8/8/8/8/8''"] by blast
  have 0: "CHR ''0'' \<in> set ''8/8/8/8/8/8/8/0''" by simp
  then have 3: "validate ''8/8/8/8/8/8/8/0'' = Return (None, Some (HTTPError 400 ''Invalid FEN''))"
    using validate_rejects_unstructured [of "''8/8/8/8/8/8/8/0''"] by blast
  from l n 1 9 2 0 3 show ?thesis by blast
qed

lemma MatchString_segments:
  assumes "MatchString FEN s"
  shows "length (strings_Split s CHR ''/'') = 8"
    and "\<forall>seg\<in>set (strings_Split s CHR ''/''). segment_ok FEN_class seg"
  using assms
  by (simp_all add: MatchString_FEN_structural structural_pattern_def list_all_iff spec_segment_ok Let_def)

text \<open>
  Claim C2. On a string that the pattern matches, \<open>validate\<close> splits it into 8
  segments and expands each one from left to right, a letter to one cell of its piece
  and a digit \<open>d\<close> to \<open>d\<close> cells \<open>Empty\<close>; it fails when some row does not count 8
  cells, and otherwise row \<open>i\<close> of the board is the expansion of segment \<open>i\<close>.
\<close>

theorem validate_expands_rows:
  assumes "MatchString FEN s"
  shows "length (strings_Split s CHR ''/'') = 8
    \<and> (\<forall>seg\<in>set (strings_Split s CHR ''/''). segment_loop seg [] = spec_expand seg)
    \<and> validate s =
        (if list_all (\<lambda>seg. length (spec_expand seg) = 8) (strings_Split s CHR ''/'')
         then Return (Some \<lparr>Pieces = map spec_expand (strings_Split s CHR ''/'')\<rparr>, None)
         else Return (None, Some (HTTPError 400 ''Invalid FEN'')))"
proof (intro conjI)
  show "length (strings_Split s CHR ''/'') = 8" by (rule MatchString_segments(1) [OF assms])
  show "\<forall>seg\<in>set (strings_Split s CHR ''/''). segment_loop seg [] = spec_expand seg"
    using MatchString_segments(2) [OF assms] by (auto simp: segment_ok_def segment_loop_spec)
  show "validate s =
        (if list_all (\<lambda>seg. length (spec_expand seg) = 8) (strings_Split s CHR ''/'')
         then Return (Some \<lparr>Pieces = map spec_expand (strings_Split s CHR ''/'')\<rparr>, None)
         else Return (None, Some (HTTPError 400 ''Invalid FEN'')))"
    by (rule validate_matched [OF assms])
qed

theorem validate_expands_rows_witness:
  "MatchString FEN ''r3k2r/8/8/8/8/8/8/R3K2R''
   \<and> validate ''r3k2r/8/8/8/8/8/8/R3K2R'' =
       Return (Some \<lparr>Pieces =
         [[BlackRook, Empty, Empty, Empty, BlackKing, Empty, Empty, BlackRook],
          [Empty, Empty, Empty, Empty, Empty, Empty, Empty, Empty],
          [Empty, Empty, Empty, Empty, Empty, Empty, Empty, Empty],
          [Empty, Empty, Empty, Empty, Empty, Empty, Empty, Empty],
          [Empty, Empty, Empty, Empty, Empty, Empty, Empty, Empty],
          [Empty, Empty, Empty, Empty, Empty, Empty, Empty, Empty],
          [Empty, Empty, Empty, Empty, Empty, Empty, Empty, Empty],
          [WhiteRook, Empty, Empty, Empty, WhiteKing, Empty, Empty, WhiteRook]]\<rparr>, None)"
proof -
  let ?s = "''r3k2r/8/8/8/8/8/8/R3K2R''"
  have m: "MatchString FEN ?s" by code_simp
  have e: "(if list_all (\<lambda>seg. length (spec_expand seg) = 8) (strings_Split ?s CHR ''/'')
         then Return (Some \<lparr>Pieces = map spec_expand (strings_Split ?s CHR ''/'')\<rparr>, None)
         else Return (None, Some (HTTPError 400 ''Invalid FEN''))) =
       Return (Some \<lparr>Pieces =
         [[BlackRook, Empty, Empty, Empty, BlackKing, Empty, Empty, BlackRook],
          [Empty, Empty, Empty, Empty, Empty, Empty, Empty, Empty],
          [Empty, Empty, Empty, Empty, Empty, Empty, Empty, Empty],
          [Empty, Empty, Empty, Empty, Empty, Empty, Empty, Empty],
          [Empty, Empty, Empty, Empty, Empty, Empty, Empty, Empty],
          [Empty, Empty, Empty, Empty, Empty, Empty, Empty, Empty],
          [Empty, Empty, Empty, Empty, Empty, Empty, Empty, Empty],
          [WhiteRook, Empty, Empty, Empty, WhiteKing, Empty, Empty, WhiteRook]]\<rparr>, None)"
    by code_simp
  from validate_expands_rows [OF m] have "validate ?s =
        (if list_all (\<lambda>seg. length (spec_expand seg) = 8) (strings_Split ?s CHR ''/'')
         then Return (Some \<lparr>Pieces = map spec_expand (strings_Split ?s CHR ''/'')\<rparr>, None)
         else Return (None, Some (HTTPError 400 ''Invalid FEN'')))" by blast
  with e have "validate ?s = Return (Some \<lparr>Pieces =
         [[BlackRook, Empty, Empty, Empty, BlackKing, Empty, Empty, BlackRook],
          [Empty, Empty, Empty, Empty, Empty, Empty, Empty, Empty],
          [Empty, Empty, Empty, Empty, Empty, Empty, Empty, Empty],
          [Empty, Empty, Empty, Empty, Empty, Empty, Empty, Empty],
          [Empty, Empty, Empty, Empty, Empty, Empty, Empty, Empty],
          [Empty, Empty, Empty, Empty, Empty, Empty, Empty, Empty],
          [Empty, Empty, Empty, Empty, Empty, Empty, Empty, Empty],
          [WhiteRook, Empty, Empty, Empty, WhiteKing, Empty, Empty, WhiteRook]]\<rparr>, None)"
    by (rule trans [rotated])
  with m show ?thesis by (rule conjI)
qed

text \<open>
  Claim C3. The count of the second pass separates what the pattern cannot:
  \<^verbatim>\<open>44/8/8/8/8/8/8/8\<close> is accepted with row 0 made of 8 cells \<open>Empty\<close>, while a string
  that the pattern matches and that has a row expanding to more or fewer than 8 cells
  is rejected, as \<^verbatim>\<open>88/8/8/8/8/8/8/8\<close> is.
\<close>

theorem validate_second_pass:
  "(\<exists>b. validate ''44/8/8/8/8/8/8/8'' = Return (Some b, None) \<and> Pieces b ! 0 = replicate 8 Empty)
   \<and> (MatchString FEN s \<and> (\<exists>seg\<in>set (strings_Split s CHR ''/''). length (spec_expand seg) \<noteq> 8)
        \<longrightarrow> validate s = Return (None, Some (HTTPError 400 ''Invalid FEN'')))
   \<and> MatchString FEN ''88/8/8/8/8/8/8/8''
   \<and> validate ''88/8/8/8/8/8/8/8'' = Return (None, Some (HTTPError 400 ''Invalid FEN''))"
proof (intro conjI impI)
  have "validate ''44/8/8/8/8/8/8/8'' = Return (Some \<lparr>Pieces = replicate 8 (replicate 8 Empty)\<rparr>, None)"
    by code_simp
  moreover have "Pieces \<lparr>Pieces = replicate 8 (replicate 8 Empty)\<rparr> ! 0 = replicate 8 Empty"
    by code_simp
  ultimately show "\<exists>b. validate ''44/8/8/8/8/8/8/8'' = Return (Some b, None) \<and> Pieces b ! 0 = replicate 8 Empty"
    by blast
next
  assume a: "MatchString FEN s \<and> (\<exists>seg\<in>set (strings_Split s CHR ''/''). length (spec_expand seg) \<noteq> 8)"
  then have "\<not> list_all (\<lambda>seg. length (spec_expand seg) = 8) (strings_Split s CHR ''/'')"
    by (auto simp: list_all_iff)
  then show "validate s = Return (None, Some (HTTPError 400 ''Invalid FEN''))"
    using a by (simp add: validate_matched)
next
  show "MatchString FEN ''88/8/8/8/8/8/8/8''" by code_simp
next
  show "validate ''88/8/8/8/8/8/8/8'' = Return (None, Some (HTTPError 400 ''Invalid FEN''))"
    by code_simp
qed

theorem validate_second_pass_witness:
  "MatchString FEN ''8/8/8/8/7/8/8/8''
   \<and> (\<exists>seg\<in>set (strings_Split ''8/8/8/8/7/8/8/8'' CHR ''/''). length (spec_expand seg) \<noteq> 8)
   \<and> validate ''8/8/8/8/7/8/8/8'' = Return (None, Some (HTTPError 400 ''Invalid FEN''))"
proof -
  let ?s = "''8/8/8/8/7/8/8/8''"
  have m: "MatchString FEN ?s" by code_simp
  have "''7'' \<in> set (strings_Split ?s CHR ''/'')" by simp
  moreover have "length (spec_expand ''7'') \<noteq> 8"
    by (simp add: spec_expand_def spec_cells_def symbol_vocabulary_def digit_runs_def)
  ultimately have r: "\<exists>seg\<in>set (strings_Split ?s CHR ''/''). length (spec_expand seg) \<noteq> 8" by blast
  from validate_second_pass [of ?s] m r
  have "validate ?s = Return (None, Some (HTTPError 400 ''Invalid FEN''))" by blast
  with m r show ?thesis by blast
qed

text \<open>
  Claim C4. The starting position is accepted: row 0 is the black back rank, row 1
  the black pawns, rows 2 to 5 are empty, row 6 holds the white pawns and row 7 the
  white back rank; upper-case letters are white pieces and lower-case letters black.
\<close>

theorem validate_starting_position:
  "validate ''rnbqkbnr/pppppppp/8/8/8/8/PPPPPPPP/RNBQKBNR'' =
     Return (Some \<lparr>Pieces =
       [[BlackRook, BlackKnight, BlackBishop, BlackQueen, BlackKing, BlackBishop, BlackKnight, BlackRook],
        [BlackPawn, BlackPawn, BlackPawn, BlackPawn, BlackPawn, BlackPawn, BlackPawn, BlackPawn],
        [Empty, Empty, Empty, Empty, Empty, Empty, Empty, Empty],
        [Empty, Empty, Empty, Empty, Empty, Empty, Empty, Empty],
        [Empty, Empty, Empty, Empty, Empty, Empty, Empty, Empty],
        [Empty, Empty, Empty, Empty, Empty, Empty, Empty, Empty],
        [WhitePawn, WhitePawn, WhitePawn, WhitePawn, WhitePawn, WhitePawn, WhitePawn, WhitePawn],
        [WhiteRook, WhiteKnight, WhiteBishop, WhiteQueen, WhiteKing, WhiteBishop, WhiteKnight, WhiteRook]]\<rparr>,
       None)
   \<and> map pieceChars_at ''PNBRQK'' = [WhitePawn, WhiteKnight, WhiteBishop, WhiteRook, WhiteQueen, WhiteKing]
   \<and> map pieceChars_at ''pnbrqk'' = [BlackPawn, BlackKnight, BlackBishop, BlackRook, BlackQueen, BlackKing]"
  by (intro conjI; code_simp)

section \<open>More claims about \<^verbatim>\<open>validate\<close>\<close>

lemma validate_cases:
  "validate s = Return (None, Some (HTTPError 400 ''Invalid FEN''))
   \<or> (\<exists>b. validate s = Return (Some b, None) \<and> board_ok b \<and> MatchString FEN s
          \<and> Pieces b = map spec_expand (strings_Split s CHR ''/''))"
proof (cases "MatchString FEN s")
  case False
  then show ?thesis by (simp add: validate_unmatched)
next
  case True
  let ?segs = "strings_Split s CHR ''/''"
  show ?thesis
  proof (cases "list_all (\<lambda>seg. length (spec_expand seg) = 8) ?segs")
    case False
    then show ?thesis by (simp add: validate_matched [OF True])
  next
    case all8: True
    let ?b = "\<lparr>Pieces = map spec_expand ?segs\<rparr>"
    have "validate s = Return (Some ?b, None)" using all8 by (simp add: validate_matched [OF True])
    moreover have "board_ok ?b"
      using all8 MatchString_segments(1) [OF True] by (simp add: board_ok_def list_all_iff)
    ultimately show ?thesis using True by auto
  qed
qed

lemma validate_Some_board_ok: "validate s = Return (Some b, None) \<Longrightarrow> board_ok b"
  using validate_cases [of s] by auto

lemma validate_not_Panic: "validate s \<noteq> Panic"
  using validate_cases [of s] by auto

lemma validate_error_unique: "validate s = Return (r, Some e) \<Longrightarrow> r = None \<and> e = HTTPError 400 ''Invalid FEN''"
  using validate_cases [of s] by auto

text \<open>
  Claim C7. For every notation that \<open>validate\<close> accepts, serializing the board (row
  by row, maximal runs of \<open>Empty\<close> cells as digits, letters otherwise) gives a notation
  that \<open>validate\<close> accepts with the same board. The law is about the board, not the
  string: \<^verbatim>\<open>44\<close> comes back as \<^verbatim>\<open>8\<close>.
\<close>

theorem validate_serialize_round_trip:
  "validate s = Return (Some b, None) \<Longrightarrow> validate (serialize b) = Return (Some b, None)"
  by (rule validate_serialize) (rule validate_Some_board_ok)

theorem validate_serialize_round_trip_witness:
  "validate ''44/8/8/8/8/8/8/r3k2r'' =
     Return (Some \<lparr>Pieces = replicate 7 (replicate 8 Empty)
        @ [[BlackRook, Empty, Empty, Empty, BlackKing, Empty, Empty, BlackRook]]\<rparr>, None)
   \<and> serialize \<lparr>Pieces = replicate 7 (replicate 8 Empty)
        @ [[BlackRook, Empty, Empty, Empty, BlackKing, Empty, Empty, BlackRook]]\<rparr>
       = ''8/8/8/8/8/8/8/r3k2r''
   \<and> validate ''8/8/8/8/8/8/8/r3k2r'' =
     Return (Some \<lparr>Pieces = replicate 7 (replicate 8 Empty)
        @ [[BlackRook, Empty, Empty, Empty, BlackKing, Empty, Empty, BlackRook]]\<rparr>, None)"
proof -
  let ?b = "\<lparr>Pieces = replicate 7 (replicate 8 Empty)
        @ [[BlackRook, Empty, Empty, Empty, BlackKing, Empty, Empty, BlackRook]]\<rparr>"
  have v: "validate ''44/8/8/8/8/8/8/r3k2r'' = Return (Some ?b, None)" by code_simp
  have s: "serialize ?b = ''8/8/8/8/8/8/8/r3k2r''" by code_simp
  from validate_serialize_round_trip [OF v] have "validate (serialize ?b) = Return (Some ?b, None)" .
  then have "validate ''8/8/8/8/8/8/8/r3k2r'' = Return (Some ?b, None)" unfolding s .
  with v s show ?thesis by blast
qed

lemma class_char_safe:
  assumes "c \<in> set FEN_class" "pieceChars c = None"
  shows "\<exists>v. strconv_Atoi [c] = (v, False) \<and> 1 \<le> v \<and> v \<le> 8"
proof -
  from assms(1) consider (letter) "c \<in> set ''rnbqkpRNBQKP''" | (digit) "c \<in> set ''12345678''"
    using class_cases by blast
  then show ?thesis
  proof cases
    case letter
    from pieceChars_letter [OF this] assms(2) show ?thesis by auto
  next
    case digit
    from runs_digit [OF this] obtain d where "map_of digit_runs c = Some d" "1 \<le> d" "d \<le> 8" by blast
    then show ?thesis using Atoi_digit [OF digit] by simp
  qed
qed

lemma rows_loop_may_panic: "rows_loop 0 (replicate 9 ''8'') new_Board = Panic"
  by code_simp

text \<open>
  Claim C10. No call of \<open>validate\<close> panics. When the pattern has matched, the split
  gives exactly 8 segments, so the row index stays within the 8 rows, and every
  character that \<^verbatim>\<open>pieceChars\<close> does not know is a digit on which \<^verbatim>\<open>strconv.Atoi\<close>
  returns no error and a value from 1 to 8.
\<close>

theorem validate_never_panics:
  "validate s \<noteq> Panic
   \<and> (MatchString FEN s \<longrightarrow>
        length (strings_Split s CHR ''/'') = 8
        \<and> (\<forall>seg\<in>set (strings_Split s CHR ''/''). \<forall>c\<in>set seg.
              pieceChars c = None \<longrightarrow>
                (\<exists>v. strconv_Atoi [c] = (v, False) \<and> 1 \<le> v \<and> v \<le> 8)))"
proof (intro conjI impI ballI)
  show "validate s \<noteq> Panic" by (rule validate_not_Panic)
next
  assume "MatchString FEN s"
  then show "length (strings_Split s CHR ''/'') = 8" by (rule MatchString_segments(1))
next
  fix seg c
  assume m: "MatchString FEN s" and seg: "seg \<in> set (strings_Split s CHR ''/'')" and c: "c \<in> set seg"
    and n: "pieceChars c = None"
  from MatchString_segments(2) [OF m] seg c have "c \<in> set FEN_class" by (auto simp: segment_ok_def)
  then show "\<exists>v. strconv_Atoi [c] = (v, False) \<and> 1 \<le> v \<and> v \<le> 8" using n by (rule class_char_safe)
qed

theorem validate_never_panics_witness:
  "MatchString FEN ''4p3/8/8/8/8/8/8/8''
   \<and> ''4p3'' \<in> set (strings_Split ''4p3/8/8/8/8/8/8/8'' CHR ''/'')
   \<and> CHR ''4'' \<in> set ''4p3'' \<and> pieceChars CHR ''4'' = None
   \<and> (\<exists>v. strconv_Atoi ''4'' = (v, False) \<and> 1 \<le> v \<and> v \<le> 8)
   \<and> length (strings_Split ''4p3/8/8/8/8/8/8/8'' CHR ''/'') = 8
   \<and> validate ''4p3/8/8/8/8/8/8/8'' \<noteq> Panic"
proof -
  let ?s = "''4p3/8/8/8/8/8/8/8''"
  have m: "MatchString FEN ?s" by code_simp
  have seg: "''4p3'' \<in> set (strings_Split ?s CHR ''/'')" by simp
  have c: "CHR ''4'' \<in> set ''4p3''" by simp
  have n: "pieceChars CHR ''4'' = None" by (simp add: pieceChars_def)
  note t = validate_never_panics [of ?s]
  from t m seg c n have "\<exists>v. strconv_Atoi ''4'' = (v, False) \<and> 1 \<le> v \<and> v \<le> 8" by blast
  moreover from t m have "length (strings_Split ?s CHR ''/'') = 8" by blast
  moreover from t have "validate ?s \<noteq> Panic" by blast
  ultimately show ?thesis using m seg c n by blast
qed

section \<open>Drawing, pixel by pixel\<close>

lemma Point_In_Intersect: "Point_In p (Intersect r s) \<longleftrightarrow> Point_In p r \<and> Point_In p s"
  by (auto simp: Intersect_def Point_In_def Rectangle_Empty_def ZR_def Let_def)

lemma Point_In_Add:
  "Point_In \<lparr>X = x, Y = y\<rparr> (Rectangle_Add r (Point_Sub q \<lparr>X = 0, Y = 0\<rparr>))
   \<longleftrightarrow> Point_In \<lparr>X = x - X q, Y = y - Y q\<rparr> r"
  by (auto simp: Rectangle_Add_def Point_Sub_def Point_In_def)

lemma Pix_draw_Draw:
  "Pix (draw_Draw dst r src sp op) (x, y) =
     (if Point_In \<lparr>X = x, Y = y\<rparr> (draw_clip dst r src sp)
      then blend op (At src (x - X (Min r) + X sp) (y - Y (Min r) + Y sp)) (Pix dst (x, y))
      else Pix dst (x, y))"
  by (simp add: draw_Draw_def Let_def)

lemma Rect_draw_Draw: "Rect (draw_Draw dst r src sp op) = Rect dst"
  by (simp add: draw_Draw_def Let_def)

lemma Stride_draw_Draw: "Stride (draw_Draw dst r src sp op) = Stride dst"
  by (simp add: draw_Draw_def Let_def)

lemma Point_In_tile:
  "Point_In \<lparr>X = x, Y = y\<rparr> (tile_rect row column) \<longleftrightarrow>
     int column * 64 \<le> x \<and> x < int column * 64 + 64 \<and> int row * 64 \<le> y \<and> y < int row * 64 + 64"
  by (simp add: tile_rect_def image_Rect_def Point_In_def)

lemma Min_tile: "X (Min (tile_rect row column)) = int column * 64" "Y (Min (tile_rect row column)) = int row * 64"
  by (simp_all add: tile_rect_def image_Rect_def)

lemma Point_In_canvas:
  "Point_In \<lparr>X = x, Y = y\<rparr> (image_Rect 0 0 512 512) \<longleftrightarrow> 0 \<le> x \<and> x < 512 \<and> 0 \<le> y \<and> y < 512"
  by (simp add: image_Rect_def Point_In_def)

lemma tile_in_canvas:
  "row < 8 \<Longrightarrow> column < 8 \<Longrightarrow> Point_In p (tile_rect row column) \<Longrightarrow> Point_In p (image_Rect 0 0 512 512)"
  by (cases p) (auto simp: tile_rect_def image_Rect_def Point_In_def)

lemma tile_in_Uniform:
  "row < 8 \<Longrightarrow> column < 8 \<Longrightarrow> Point_In \<lparr>X = x, Y = y\<rparr> (tile_rect row column) \<Longrightarrow>
   Point_In \<lparr>X = x, Y = y\<rparr>
     (Rectangle_Add (Bounds (image_NewUniform c)) (Point_Sub (Min (tile_rect row column)) \<lparr>X = 0, Y = 0\<rparr>))"
  by (auto simp: Rectangle_Add_def Point_Sub_def tile_rect_def image_Rect_def image_NewUniform_def Point_In_def)

lemma blend_Src_dark: "blend Src (RGBA_RGBA dark_gray) d = dark_gray"
  by (simp add: blend_def RGBA_RGBA_def dark_gray_def src_channel_def)

lemma blend_Src_White: "blend Src color_White d = \<lparr>R = 0xff, G = 0xff, B = 0xff, A = 0xff\<rparr>"
  by (simp add: blend_def color_White_def src_channel_def)








lemma over_channel_opaque: "over_channel s 0xffff d = ucast (drop_bit 8 s)"
  by (simp add: over_channel_def Let_def)


lemma blend_Over_opaque:
  "a16 c = 0xffff \<Longrightarrow> blend Over c d = blend Src c d"
  by (simp add: blend_def over_channel_opaque src_channel_def)






lemma pieceImages_Some: "piece \<noteq> Empty \<Longrightarrow> \<exists>pieceImage. pieceImages I piece = Some pieceImage"
  by (cases piece) (simp_all add: pieceImages_def)

lemma pieceImages_Empty: "pieceImages I Empty = None"
  by (simp add: pieceImages_def)

lemma tiles_disjoint:
  "Point_In p (tile_rect r c) \<Longrightarrow> Point_In p (tile_rect r' c') \<Longrightarrow> r = r' \<and> c = c'"
  by (cases p) (auto simp: Point_In_tile)

lemma cells_drawn_none: "cells_drawn I b {} img img"
  by (simp add: cells_drawn_def)

lemma cells_drawn_compose:
  assumes 1: "cells_drawn I b S img img1" and 2: "cells_drawn I b T img1 img2" and d: "S \<inter> T = {}"
  shows "cells_drawn I b (S \<union> T) img img2"
  unfolding cells_drawn_def
proof (intro conjI allI impI)
  show "Rect img2 = Rect img" using 1 2 by (simp add: cells_drawn_def)
  show "Stride img2 = Stride img" using 1 2 by (simp add: cells_drawn_def)
next
  fix x y r c
  assume rc: "(r, c) \<in> S \<union> T" and tile: "Point_In \<lparr>X = x, Y = y\<rparr> (tile_rect r c)"
  show "Pix img2 (x, y) =
          piece_over I (Pieces b ! r ! c) (x - int c * 64) (y - int r * 64) (tile_colour r c (Pix img (x, y)))"
  proof (cases "(r, c) \<in> S")
    case True
    have "\<forall>r' c'. (r', c') \<in> T \<longrightarrow> \<not> Point_In \<lparr>X = x, Y = y\<rparr> (tile_rect r' c')"
      using tiles_disjoint [OF tile] True d by blast
    then have "Pix img2 (x, y) = Pix img1 (x, y)" using 2 by (simp add: cells_drawn_def)
    also have "\<dots> = piece_over I (Pieces b ! r ! c) (x - int c * 64) (y - int r * 64)
                        (tile_colour r c (Pix img (x, y)))"
      using 1 True tile unfolding cells_drawn_def by blast
    finally show ?thesis .
  next
    case False
    then have T: "(r, c) \<in> T" using rc by simp
    have "\<forall>r' c'. (r', c') \<in> S \<longrightarrow> \<not> Point_In \<lparr>X = x, Y = y\<rparr> (tile_rect r' c')"
      using tiles_disjoint [OF tile] False by blast
    then have "Pix img1 (x, y) = Pix img (x, y)" using 1 by (simp add: cells_drawn_def)
    moreover have "Pix img2 (x, y) = piece_over I (Pieces b ! r ! c) (x - int c * 64) (y - int r * 64)
                        (tile_colour r c (Pix img1 (x, y)))"
      using 2 T tile unfolding cells_drawn_def by blast
    ultimately show ?thesis by simp
  qed
next
  fix x y
  assume n: "\<forall>r c. (r, c) \<in> S \<union> T \<longrightarrow> \<not> Point_In \<lparr>X = x, Y = y\<rparr> (tile_rect r c)"
  then have "Pix img2 (x, y) = Pix img1 (x, y)" using 2 by (simp add: cells_drawn_def)
  moreover have "Pix img1 (x, y) = Pix img (x, y)" using 1 n by (simp add: cells_drawn_def)
  ultimately show "Pix img2 (x, y) = Pix img (x, y)" by simp
qed

lemma paint_tile_pixel:
  assumes "Rect img = image_Rect 0 0 512 512" "row < 8" "column < 8"
  shows "Pix (paint_tile row column img) (x, y) =
           (if Point_In \<lparr>X = x, Y = y\<rparr> (tile_rect row column)
            then tile_colour row column (Pix img (x, y)) else Pix img (x, y))"
proof (cases "(row + column) mod 2 = 0")
  case False
  then show ?thesis by (simp add: paint_tile_def tile_colour_def)
next
  case True
  have "Point_In \<lparr>X = x, Y = y\<rparr>
          (draw_clip img (tile_rect row column) (image_NewUniform (RGBA_RGBA dark_gray)) \<lparr>X = 0, Y = 0\<rparr>)
        \<longleftrightarrow> Point_In \<lparr>X = x, Y = y\<rparr> (tile_rect row column)"
    unfolding draw_clip_def Point_In_Intersect
    using tile_in_Uniform [OF assms(2,3)] tile_in_canvas [OF assms(2,3)] assms(1) by auto
  then show ?thesis using True
    by (simp add: paint_tile_def tile_colour_def Pix_draw_Draw image_NewUniform_def blend_Src_dark)
qed

lemma paint_tile_Rect: "Rect (paint_tile row column img) = Rect img"
  by (simp add: paint_tile_def Rect_draw_Draw Let_def)

lemma paint_tile_Stride: "Stride (paint_tile row column img) = Stride img"
  by (simp add: paint_tile_def Stride_draw_Draw Let_def)

lemma draw_piece_pixel:
  assumes "Rect img = image_Rect 0 0 512 512" "row < 8" "column < 8"
  shows "\<exists>img'. draw_piece I piece row column img = Return img' \<and> Rect img' = Rect img
           \<and> Stride img' = Stride img
           \<and> (\<forall>x y. Pix img' (x, y) =
                 (if Point_In \<lparr>X = x, Y = y\<rparr> (tile_rect row column)
                  then piece_over I piece (x - int column * 64) (y - int row * 64) (Pix img (x, y))
                  else Pix img (x, y)))"
proof (cases "piece = Empty")
  case True
  then show ?thesis by (simp add: draw_piece_def piece_over_def pieceImages_Empty)
next
  case False
  then obtain pieceImage where p: "pieceImages I piece = Some pieceImage"
    using pieceImages_Some by blast
  let ?img' = "draw_Draw img (tile_rect row column) pieceImage \<lparr>X = 0, Y = 0\<rparr> Over"
  have clip: "\<And>x y. Point_In \<lparr>X = x, Y = y\<rparr> (draw_clip img (tile_rect row column) pieceImage \<lparr>X = 0, Y = 0\<rparr>)
        \<longleftrightarrow> Point_In \<lparr>X = x, Y = y\<rparr> (tile_rect row column)
            \<and> Point_In \<lparr>X = x - int column * 64, Y = y - int row * 64\<rparr> (Bounds pieceImage)"
    unfolding draw_clip_def Point_In_Intersect Point_In_Add Min_tile
    using tile_in_canvas [OF assms(2,3)] assms(1) by auto
  have "draw_piece I piece row column img = Return ?img'" using False p by (simp add: draw_piece_def)
  moreover have "\<forall>x y. Pix ?img' (x, y) =
                 (if Point_In \<lparr>X = x, Y = y\<rparr> (tile_rect row column)
                  then piece_over I piece (x - int column * 64) (y - int row * 64) (Pix img (x, y))
                  else Pix img (x, y))"
    by (simp add: Pix_draw_Draw clip piece_over_def p Min_tile)
  ultimately show ?thesis by (simp add: Rect_draw_Draw Stride_draw_Draw)
qed

lemma render_cell_drawn:
  assumes "Rect img = image_Rect 0 0 512 512" "row < 8" "column < 8"
  shows "\<exists>img'. render_cell I b row column img = Return img' \<and> cells_drawn I b {(row, column)} img img'"
proof -
  let ?img1 = "paint_tile row column img"
  have r1: "Rect ?img1 = image_Rect 0 0 512 512" using assms(1) by (simp add: paint_tile_Rect)
  from draw_piece_pixel [OF r1 assms(2,3), of I "Pieces b ! row ! column"]
  obtain img' where h: "draw_piece I (Pieces b ! row ! column) row column ?img1 = Return img'"
    "Rect img' = Rect ?img1" "Stride img' = Stride ?img1"
    "\<forall>x y. Pix img' (x, y) =
         (if Point_In \<lparr>X = x, Y = y\<rparr> (tile_rect row column)
          then piece_over I (Pieces b ! row ! column) (x - int column * 64) (y - int row * 64) (Pix ?img1 (x, y))
          else Pix ?img1 (x, y))" by blast
  have "render_cell I b row column img = Return img'" using h(1) by (simp add: render_cell_def)
  moreover have "cells_drawn I b {(row, column)} img img'"
    unfolding cells_drawn_def
    using h(2,3,4) by (simp add: paint_tile_Rect paint_tile_Stride paint_tile_pixel [OF assms])
  ultimately show ?thesis by blast
qed

lemma cells_drawn_Rect: "cells_drawn I b S img img' \<Longrightarrow> Rect img' = Rect img"
  by (simp add: cells_drawn_def)

lemma column_loop_drawn:
  assumes "Rect img = image_Rect 0 0 512 512" "row < 8" "column \<le> 8"
  shows "\<exists>img'. column_loop I b row column img = Return img'
           \<and> cells_drawn I b {(row, c) | c. column \<le> c \<and> c < 8} img img'"
  using assms
proof (induction "8 - column" arbitrary: column img)
  case 0
  then have "column = 8" by simp
  then have "column_loop I b row column img = Return img"
    by (subst column_loop.simps) simp
  moreover have e: "{(row, c) | c. column \<le> c \<and> c < 8} = {}" using \<open>column = 8\<close> by auto
  have "cells_drawn I b {(row, c) | c. column \<le> c \<and> c < 8} img img"
    unfolding e by (rule cells_drawn_none)
  ultimately show ?case by blast
next
  case (Suc k)
  then have lt: "column < 8" by simp
  from render_cell_drawn [OF Suc.prems(1,2) lt, of I b]
  obtain img1 where c1: "render_cell I b row column img = Return img1"
    and d1: "cells_drawn I b {(row, column)} img img1" by blast
  have r1: "Rect img1 = image_Rect 0 0 512 512" using cells_drawn_Rect [OF d1] Suc.prems(1) by simp
  have k: "k = 8 - (column + 1)" using Suc.hyps(2) by simp
  have le: "column + 1 \<le> 8" using lt by simp
  from Suc.hyps(1) [OF k r1 Suc.prems(2) le]
  obtain img' where c2: "column_loop I b row (column + 1) img1 = Return img'"
    and d2: "cells_drawn I b {(row, c) | c. column + 1 \<le> c \<and> c < 8} img1 img'" by blast
  have "column_loop I b row column img = Return img'"
    using lt c1 c2 by (subst column_loop.simps) simp
  moreover have "{(row, column)} \<inter> {(row, c) | c. column + 1 \<le> c \<and> c < 8} = {}" by auto
  from cells_drawn_compose [OF d1 d2 this]
  have "cells_drawn I b ({(row, column)} \<union> {(row, c) | c. column + 1 \<le> c \<and> c < 8}) img img'" .
  moreover have "{(row, column)} \<union> {(row, c) | c. column + 1 \<le> c \<and> c < 8}
                 = {(row, c) | c. column \<le> c \<and> c < 8}" using lt by auto
  ultimately show ?case by (simp del: Un_insert_left)
qed

lemma row_loop_drawn:
  assumes "Rect img = image_Rect 0 0 512 512" "row \<le> 8"
  shows "\<exists>img'. row_loop I b row img = Return img'
           \<and> cells_drawn I b {(r, c) | r c. row \<le> r \<and> r < 8 \<and> c < 8} img img'"
  using assms
proof (induction "8 - row" arbitrary: row img)
  case 0
  then have "row = 8" by simp
  then have "row_loop I b row img = Return img"
    by (subst row_loop.simps) simp
  moreover have e: "{(r, c) | r c. row \<le> r \<and> r < 8 \<and> c < (8::nat)} = {}" using \<open>row = 8\<close> by auto
  have "cells_drawn I b {(r, c) | r c. row \<le> r \<and> r < 8 \<and> c < 8} img img"
    unfolding e by (rule cells_drawn_none)
  ultimately show ?case by blast
next
  case (Suc k)
  then have lt: "row < 8" by simp
  from column_loop_drawn [OF Suc.prems(1) lt, of 0 I b]
  obtain img1 where c1: "column_loop I b row 0 img = Return img1"
    and d1: "cells_drawn I b {(row, c) | c. 0 \<le> c \<and> c < 8} img img1" by auto
  have r1: "Rect img1 = image_Rect 0 0 512 512" using cells_drawn_Rect [OF d1] Suc.prems(1) by simp
  have k: "k = 8 - (row + 1)" using Suc.hyps(2) by simp
  have le: "row + 1 \<le> 8" using lt by simp
  from Suc.hyps(1) [OF k r1 le]
  obtain img' where c2: "row_loop I b (row + 1) img1 = Return img'"
    and d2: "cells_drawn I b {(r, c) | r c. row + 1 \<le> r \<and> r < 8 \<and> c < 8} img1 img'" by blast
  have "row_loop I b row img = Return img'"
    using lt c1 c2 by (subst row_loop.simps) simp
  moreover have "{(row, c) | c. 0 \<le> c \<and> c < 8} \<inter> {(r, c) | r c. row + 1 \<le> r \<and> r < 8 \<and> c < (8::nat)} = {}"
    by auto
  from cells_drawn_compose [OF d1 d2 this]
  have "cells_drawn I b ({(row, c) | c. 0 \<le> c \<and> c < 8} \<union> {(r, c) | r c. row + 1 \<le> r \<and> r < 8 \<and> c < 8})
          img img'" .
  moreover have "{(row, c) | c. 0 \<le> c \<and> c < 8} \<union> {(r, c) | r c. row + 1 \<le> r \<and> r < 8 \<and> c < 8}
                 = {(r, c) | r c. row \<le> r \<and> r < 8 \<and> c < (8::nat)}"
  proof (intro set_eqI iffI)
    fix p assume "p \<in> {(row, c) | c. 0 \<le> c \<and> c < 8} \<union> {(r, c) | r c. row + 1 \<le> r \<and> r < 8 \<and> c < (8::nat)}"
    then show "p \<in> {(r, c) | r c. row \<le> r \<and> r < 8 \<and> c < (8::nat)}" using lt by auto
  next
    fix p assume "p \<in> {(r, c) | r c. row \<le> r \<and> r < 8 \<and> c < (8::nat)}"
    then obtain r c where p: "p = (r, c)" "row \<le> r" "r < 8" "c < 8" by blast
    show "p \<in> {(row, c) | c. 0 \<le> c \<and> c < 8} \<union> {(r, c) | r c. row + 1 \<le> r \<and> r < 8 \<and> c < 8}"
    proof (cases "r = row")
      case True
      then show ?thesis using p by simp
    next
      case False
      then have "row + 1 \<le> r" using p(2) by simp
      then show ?thesis using p by blast
    qed
  qed
  ultimately show ?case by simp
qed

lemma background_Rect: "Rect background = image_Rect 0 0 512 512"
  by (simp add: background_def Let_def Rect_draw_Draw image_NewRGBA_def)

lemma background_Stride: "Stride background = 4 * 512"
  by (simp add: background_def Let_def Stride_draw_Draw image_NewRGBA_def image_Rect_def)

lemma background_Pix:
  assumes "0 \<le> x" "x < 512" "0 \<le> y" "y < 512"
  shows "Pix background (x, y) = white"
proof -
  let ?img = "image_NewRGBA (image_Rect 0 0 512 512)"
  have "Point_In \<lparr>X = x, Y = y\<rparr> (draw_clip ?img (Rect ?img) image_White \<lparr>X = 0, Y = 0\<rparr>)"
    unfolding draw_clip_def Point_In_Intersect
    using assms
    by (simp add: image_NewRGBA_def image_White_def image_NewUniform_def image_Rect_def
        Rectangle_Add_def Point_Sub_def Point_In_def)
  then show ?thesis
    by (simp add: background_def Let_def Pix_draw_Draw image_White_def image_NewUniform_def
        blend_Src_White white_def)
qed

lemma render_image:
  "\<exists>img. row_loop I b 0 background = Return img
     \<and> Rect img = image_Rect 0 0 512 512 \<and> Stride img = 4 * 512
     \<and> (\<forall>row column x y. row < 8 \<longrightarrow> column < 8 \<longrightarrow> Point_In \<lparr>X = x, Y = y\<rparr> (tile_rect row column) \<longrightarrow>
           Pix img (x, y) =
             piece_over I (Pieces b ! row ! column) (x - int column * 64) (y - int row * 64)
               (tile_colour row column white))"
proof -
  from row_loop_drawn [OF background_Rect, of 0 I b]
  obtain img where r: "row_loop I b 0 background = Return img"
    and d: "cells_drawn I b {(r, c) | r c. 0 \<le> r \<and> r < 8 \<and> c < 8} background img" by auto
  have "Rect img = image_Rect 0 0 512 512" using d background_Rect by (simp add: cells_drawn_def)
  moreover have "Stride img = 4 * 512" using d background_Stride by (simp add: cells_drawn_def)
  moreover have "\<forall>row column x y. row < 8 \<longrightarrow> column < 8 \<longrightarrow> Point_In \<lparr>X = x, Y = y\<rparr> (tile_rect row column) \<longrightarrow>
           Pix img (x, y) =
             piece_over I (Pieces b ! row ! column) (x - int column * 64) (y - int row * 64)
               (tile_colour row column white)"
  proof (intro allI impI)
    fix row column x y
    assume rc: "row < 8" "column < 8" and t: "Point_In \<lparr>X = x, Y = y\<rparr> (tile_rect row column)"
    from tile_in_canvas [OF rc t] have "Pix background (x, y) = white"
      by (intro background_Pix) (simp_all add: Point_In_canvas)
    moreover have "(row, column) \<in> {(r, c) | r c. 0 \<le> r \<and> r < 8 \<and> c < 8}" using rc by simp
    then have "Pix img (x, y) =
             piece_over I (Pieces b ! row ! column) (x - int column * 64) (y - int row * 64)
               (tile_colour row column (Pix background (x, y)))"
      using d t unfolding cells_drawn_def by blast
    ultimately show "Pix img (x, y) =
             piece_over I (Pieces b ! row ! column) (x - int column * 64) (y - int row * 64)
               (tile_colour row column white)" by simp
  qed
  ultimately show ?thesis using r by blast
qed

section \<open>The claims about \<^verbatim>\<open>render\<close>\<close>

lemma render_valid:
  assumes "validate s = Return (Some b, None)"
  shows "\<exists>img. render s c = Return (PNG ''image/png'' (finish c - start c) img)
     \<and> row_loop (images c) b 0 background = Return img"
proof -
  from render_image [of "images c" b] obtain img where "row_loop (images c) b 0 background = Return img"
    by blast
  then show ?thesis using assms by (simp add: render_def Let_def)
qed

lemma render_invalid:
  assumes "validate s = Return (r, Some e)"
  shows "render s c = Return (String 400 (Error c e))"
  using assms by (simp add: render_def split: option.splits)











lemma rendered_bitmap_PNG: "rendered_bitmap (Return (PNG ct t img)) = Some img"
  by (simp add: rendered_bitmap_def)

lemma rendered_bitmap_String: "rendered_bitmap (Return (String k t)) = None"
  by (simp add: rendered_bitmap_def)

text \<open>
  Claim C8. The bitmap that \<open>render\<close> produces depends on nothing but the board and
  the images: two calls whose notations give the same result of \<open>validate\<close> and whose
  environments hold the same images produce the same bitmap, whatever the clock
  readings are; and on an accepted notation the bitmap is the one the two loops draw
  for the board.
\<close>

theorem render_deterministic:
  "(validate s = validate s' \<and> images c = images c' \<longrightarrow>
      rendered_bitmap (render s c) = rendered_bitmap (render s' c'))
   \<and> (\<forall>b. validate s = Return (Some b, None) \<longrightarrow>
        (\<exists>img. rendered_bitmap (render s c) = Some img
           \<and> row_loop (images c) b 0 background = Return img))"
proof (intro conjI impI allI)
  assume a: "validate s = validate s' \<and> images c = images c'"
  then have v: "validate s = validate s'" and i: "images c = images c'" by simp_all
  from validate_cases [of s] consider
    (failure) "validate s = Return (None, Some (HTTPError 400 ''Invalid FEN''))"
    | (board) b where "validate s = Return (Some b, None)" by blast
  then show "rendered_bitmap (render s c) = rendered_bitmap (render s' c')"
  proof cases
    case failure
    then have "validate s' = Return (None, Some (HTTPError 400 ''Invalid FEN''))" using v by simp
    from render_invalid [OF failure, of c] render_invalid [OF this, of c']
    show ?thesis by (simp only: rendered_bitmap_String)
  next
    case board
    then have b': "validate s' = Return (Some b, None)" using v by simp
    from render_valid [OF board, of c] obtain img where
      r: "render s c = Return (PNG ''image/png'' (finish c - start c) img)"
      and l: "row_loop (images c) b 0 background = Return img" by blast
    from render_valid [OF b', of c'] obtain img' where
      r': "render s' c' = Return (PNG ''image/png'' (finish c' - start c') img')"
      and l': "row_loop (images c') b 0 background = Return img'" by blast
    from l l' i have "img = img'" by simp
    then show ?thesis unfolding r r' by (simp only: rendered_bitmap_PNG)
  qed
next
  fix b assume v: "validate s = Return (Some b, None)"
  from render_valid [OF v, of c] obtain img where
      r: "render s c = Return (PNG ''image/png'' (finish c - start c) img)"
      and l: "row_loop (images c) b 0 background = Return img" by blast
  have "rendered_bitmap (render s c) = Some img" unfolding r by (rule rendered_bitmap_PNG)
  with l show "\<exists>img. rendered_bitmap (render s c) = Some img
           \<and> row_loop (images c) b 0 background = Return img" by blast
qed

theorem render_deterministic_witness:
  "validate ''44/8/8/8/8/8/8/8'' = validate ''8/8/8/8/8/8/8/8''
   \<and> images (sample_env 5 12) = images (sample_env 100 109)
   \<and> rendered_bitmap (render ''44/8/8/8/8/8/8/8'' (sample_env 5 12))
       = rendered_bitmap (render ''8/8/8/8/8/8/8/8'' (sample_env 100 109))
   \<and> (\<exists>img. rendered_bitmap (render ''44/8/8/8/8/8/8/8'' (sample_env 5 12)) = Some img)
   \<and> render ''44/8/8/8/8/8/8/8'' (sample_env 5 12) \<noteq> render ''8/8/8/8/8/8/8/8'' (sample_env 100 109)"
proof -
  let ?b = "\<lparr>Pieces = replicate 8 (replicate 8 Empty)\<rparr>"
  have v1: "validate ''44/8/8/8/8/8/8/8'' = Return (Some ?b, None)" by code_simp
  have v2: "validate ''8/8/8/8/8/8/8/8'' = Return (Some ?b, None)" by code_simp
  have v: "validate ''44/8/8/8/8/8/8/8'' = validate ''8/8/8/8/8/8/8/8''" unfolding v1 v2 ..
  have i: "images (sample_env 5 12) = images (sample_env 100 109)" by (simp add: sample_env_def)
  note t = render_deterministic [of "''44/8/8/8/8/8/8/8''" "''8/8/8/8/8/8/8/8''" "sample_env 5 12" "sample_env 100 109"]
  from t [THEN conjunct1, THEN mp, OF conjI, OF v i]
  have e: "rendered_bitmap (render ''44/8/8/8/8/8/8/8'' (sample_env 5 12))
       = rendered_bitmap (render ''8/8/8/8/8/8/8/8'' (sample_env 100 109))" .
  from t [THEN conjunct2, rule_format, OF v1]
  have x: "\<exists>img. rendered_bitmap (render ''44/8/8/8/8/8/8/8'' (sample_env 5 12)) = Some img"
    by blast
  from render_valid [OF v1, of "sample_env 5 12"] obtain img1 where
    r1: "render ''44/8/8/8/8/8/8/8'' (sample_env 5 12)
          = Return (PNG ''image/png'' (finish (sample_env 5 12) - start (sample_env 5 12)) img1)" by blast
  from render_valid [OF v2, of "sample_env 100 109"] obtain img2 where
    r2: "render ''8/8/8/8/8/8/8/8'' (sample_env 100 109)
          = Return (PNG ''image/png'' (finish (sample_env 100 109) - start (sample_env 100 109)) img2)" by blast
  have "render ''44/8/8/8/8/8/8/8'' (sample_env 5 12) \<noteq> render ''8/8/8/8/8/8/8/8'' (sample_env 100 109)"
    unfolding r1 r2 by (simp add: sample_env_def)
  with v i e x show ?thesis by blast
qed

text \<open>
  Claim C9. \<open>validate\<close> returns either a complete board and no error, or no board and
  the one error value of code 400 and message \<^verbatim>\<open>Invalid FEN\<close>; the failure of the pattern
  and the failure of the count return the same value, and \<open>render\<close> answers both with
  status 400 and the same text.
\<close>

theorem validate_uniform_failure:
  "(validate s = Return (None, Some (HTTPError 400 ''Invalid FEN''))
      \<or> (\<exists>b. validate s = Return (Some b, None) \<and> board_ok b))
   \<and> (\<not> MatchString FEN s \<longrightarrow> validate s = Return (None, Some (HTTPError 400 ''Invalid FEN'')))
   \<and> (MatchString FEN s \<and> \<not> list_all (\<lambda>seg. length (segment_loop seg []) = 8) (strings_Split s CHR ''/'')
        \<longrightarrow> validate s = Return (None, Some (HTTPError 400 ''Invalid FEN'')))
   \<and> (\<forall>r e. validate s = Return (r, Some e) \<longrightarrow>
         r = None \<and> e = HTTPError 400 ''Invalid FEN''
         \<and> render s c = Return (String 400 (Error c (HTTPError 400 ''Invalid FEN''))))"
proof (intro conjI impI allI)
  show "validate s = Return (None, Some (HTTPError 400 ''Invalid FEN''))
      \<or> (\<exists>b. validate s = Return (Some b, None) \<and> board_ok b)"
    using validate_cases [of s] by blast
next
  assume "\<not> MatchString FEN s"
  then show "validate s = Return (None, Some (HTTPError 400 ''Invalid FEN''))"
    by (rule validate_unmatched)
next
  assume a: "MatchString FEN s \<and> \<not> list_all (\<lambda>seg. length (segment_loop seg []) = 8) (strings_Split s CHR ''/'')"
  then have m: "MatchString FEN s" by simp
  have "list_all (\<lambda>seg. length (segment_loop seg []) = 8) (strings_Split s CHR ''/'')
          = list_all (\<lambda>seg. length (spec_expand seg) = 8) (strings_Split s CHR ''/'')"
    using MatchString_segments(2) [OF m] by (auto simp: list_all_iff segment_ok_def segment_loop_spec)
  then show "validate s = Return (None, Some (HTTPError 400 ''Invalid FEN''))"
    using a by (simp add: validate_matched [OF m])
next
  fix r e assume v: "validate s = Return (r, Some e)"
  from validate_error_unique [OF v] show "r = None" by simp
  from validate_error_unique [OF v] show e: "e = HTTPError 400 ''Invalid FEN''" by simp
  from render_invalid [OF v, of c] show "render s c = Return (String 400 (Error c (HTTPError 400 ''Invalid FEN'')))"
    unfolding e .
qed

theorem validate_uniform_failure_witness:
  "\<not> MatchString FEN ''8/8/8/8/8/8/8''
   \<and> MatchString FEN ''88/8/8/8/8/8/8/8''
   \<and> \<not> list_all (\<lambda>seg. length (segment_loop seg []) = 8) (strings_Split ''88/8/8/8/8/8/8/8'' CHR ''/'')
   \<and> validate ''8/8/8/8/8/8/8'' = Return (None, Some (HTTPError 400 ''Invalid FEN''))
   \<and> validate ''88/8/8/8/8/8/8/8'' = Return (None, Some (HTTPError 400 ''Invalid FEN''))
   \<and> render ''8/8/8/8/8/8/8'' (sample_env 5 12) = Return (String 400 ''code=400, message=Invalid FEN'')
   \<and> render ''88/8/8/8/8/8/8/8'' (sample_env 5 12) = Return (String 400 ''code=400, message=Invalid FEN'')"
proof -
  let ?c = "sample_env 5 12"
  have n1: "\<not> MatchString FEN ''8/8/8/8/8/8/8''" by code_simp
  have m2: "MatchString FEN ''88/8/8/8/8/8/8/8''" by code_simp
  have n2: "\<not> list_all (\<lambda>seg. length (segment_loop seg []) = 8) (strings_Split ''88/8/8/8/8/8/8/8'' CHR ''/'')"
    by code_simp
  note t1 = validate_uniform_failure [of "''8/8/8/8/8/8/8''" ?c]
  note t2 = validate_uniform_failure [of "''88/8/8/8/8/8/8/8''" ?c]
  from t1 n1 have v1: "validate ''8/8/8/8/8/8/8'' = Return (None, Some (HTTPError 400 ''Invalid FEN''))"
    by blast
  from t2 m2 n2 have v2: "validate ''88/8/8/8/8/8/8/8'' = Return (None, Some (HTTPError 400 ''Invalid FEN''))"
    by blast
  have "echo_Error (HTTPError 400 ''Invalid FEN'') = ''code=400, message=Invalid FEN''" by code_simp
  then have msg: "Error ?c (HTTPError 400 ''Invalid FEN'') = ''code=400, message=Invalid FEN''"
    by (simp add: sample_env_def)
  from t1 v1 have "render ''8/8/8/8/8/8/8'' ?c = Return (String 400 (Error ?c (HTTPError 400 ''Invalid FEN'')))"
    by blast
  then have r1: "render ''8/8/8/8/8/8/8'' ?c = Return (String 400 ''code=400, message=Invalid FEN'')" unfolding msg .
  from t2 v2 have "render ''88/8/8/8/8/8/8/8'' ?c = Return (String 400 (Error ?c (HTTPError 400 ''Invalid FEN'')))"
    by blast
  then have r2: "render ''88/8/8/8/8/8/8/8'' ?c = Return (String 400 ''code=400, message=Invalid FEN'')" unfolding msg .
  from n1 m2 n2 v1 v2 r1 r2 show ?thesis by blast
qed

end
